theory Spec2Isabelle
  imports Main "HOL-Library.Sublist" "HOL-Library.AList"
begin

section \<open>The playlist editor of BeamerPi (app/static/js/playlist_form.js)\<close>

text \<open>
  The script is one \<^verbatim>\<open>DOMContentLoaded\<close> handler whose closures share the page's DOM
  and a few script variables. The embedding keeps that shape: a record \<open>page\<close> holds the
  part of the DOM the script reads and writes together with the script variables, every
  function of the script is a function from page to page, and a user interaction is an
  \<open>event\<close> interpreted by \<open>step\<close>. A handler that can raise returns a sum.

  A string is a list of UTF-16 code units in the range U+0000 to U+00FF, the type
  \<open>char\<close>; texts with other code units are outside the model. DOM nodes that the script creates and later
  addresses by reference (the items of the selected list) carry a node identifier.
  Folder expansion, focus and scrolling do not touch the state modelled here and are
  left out.
\<close>

subsection \<open>Strings\<close>

text \<open>\<^verbatim>\<open>a || b\<close> on a data attribute that may be absent: the empty string is falsy.\<close>

definition or_js :: "string option \<Rightarrow> string \<Rightarrow> string" where
  "or_js a b = (case a of None \<Rightarrow> b | Some s \<Rightarrow> if s = [] then b else s)"

text \<open>
  \<^verbatim>\<open>String.prototype.trim\<close> strips the white space and the line terminators of
  ECMAScript. Those below U+0100 are TAB, LF, VT, FF, CR, SPACE and NO-BREAK SPACE (U+00A0).
\<close>

definition isWhiteSpace :: "char \<Rightarrow> bool" where
  "isWhiteSpace c = (c \<in> set [CHR 0x09, CHR 0x0A, CHR 0x0B, CHR 0x0C, CHR 0x0D, CHR 0x20, CHR 0xA0])"

definition trim :: "string \<Rightarrow> string" where
  "trim s = rev (dropWhile isWhiteSpace (rev (dropWhile isWhiteSpace s)))"

text \<open>
  \<^verbatim>\<open>String.prototype.toLowerCase\<close> maps every code unit by the lower-case mapping of
  Unicode. Below U+0100 the code units with a mapping are U+0041 to U+005A (A to Z) and
  U+00C0 to U+00DE without the multiplication sign U+00D7; each maps to the code unit
  0x20 above it.
\<close>

definition lowerChar :: "char \<Rightarrow> char" where
  "lowerChar c =
     (let n = (of_char c :: nat) in
      if (0x41 \<le> n \<and> n \<le> 0x5A) \<or> (0xC0 \<le> n \<and> n \<le> 0xDE \<and> n \<noteq> 0xD7)
      then char_of (n + 0x20) else c)"

definition toLowerCase :: "string \<Rightarrow> string" where
  "toLowerCase s = map lowerChar s"

text \<open>\<^verbatim>\<open>s.includes(q)\<close>: \<open>q\<close> occurs in \<open>s\<close> as a contiguous block.\<close>

fun includes_js :: "string \<Rightarrow> string \<Rightarrow> bool" where
  "includes_js [] q = (q = [])"
| "includes_js (c # s) q = (prefix q (c # s) \<or> includes_js s q)"

text \<open>Decimal rendering of a count inside a template literal.\<close>

fun show_nat :: "nat \<Rightarrow> string" where
  "show_nat n =
     (if n < 10 then [''0123456789'' ! n]
      else show_nat (n div 10) @ [''0123456789'' ! (n mod 10)])"

declare show_nat.simps [simp del]

subsection \<open>Values returned by \<^verbatim>\<open>JSON.parse\<close>\<close>

datatype js_value =
    JNull
  | JBool bool
  | JNum int
  | JStr string
  | JArr "js_value list"
  | JObj "(string \<times> js_value) list"

datatype js_error = TypeError

text \<open>
  Reading \<^verbatim>\<open>v.length\<close>: a TypeError on \<^verbatim>\<open>null\<close>, the number of elements of an array,
  the number of characters of a string, the own property of that name of an object (the last
  one if the JSON text repeats the key), and \<^verbatim>\<open>undefined\<close> (\<open>None\<close>) otherwise.
\<close>

fun js_length :: "js_value \<Rightarrow> js_error + js_value option" where
  "js_length JNull = Inl TypeError"
| "js_length (JArr xs) = Inr (Some (JNum (int (length xs))))"
| "js_length (JStr s) = Inr (Some (JNum (int (length s))))"
| "js_length (JObj kvs) = Inr (map_of (rev kvs) ''length'')"
| "js_length (JBool b) = Inr None"
| "js_length (JNum n) = Inr None"

text \<open>
  Calling \<^verbatim>\<open>v.forEach(f)\<close>: only an array has the method; on every other parsed value
  the call raises a TypeError. The result is the list of elements \<open>f\<close> is applied to.
\<close>

fun js_forEach :: "js_value \<Rightarrow> js_error + js_value list" where
  "js_forEach (JArr xs) = Inr xs"
| "js_forEach v = Inl TypeError"

subsection \<open>The page\<close>

text \<open>A \<^verbatim>\<open>[data-video-entry]\<close> element as the server renders it.\<close>

record entry_element =
  dataVideoPath :: "string option"
  dataVideoName :: "string option"
  dataVideoSrc :: "string option"
  videosInput :: "bool option"   \<comment> \<open>\<^verbatim>\<open>input[name="videos"]\<close>: its checked state, \<open>None\<close> if there is none\<close>
  classPreviewActive :: bool

text \<open>
  An element of \<^verbatim>\<open>fileEntries\<close>. The entry object, its element and its checkbox are one
  record; the position in \<^verbatim>\<open>fileEntries\<close> is the identity of the element.
\<close>

record file_entry =
  path :: string
  name :: string
  previewSrc :: string
  checkbox :: "bool option"      \<comment> \<open>\<^verbatim>\<open>entry.checkbox.checked\<close>, \<open>None\<close> for a null checkbox\<close>
  changeListener :: bool         \<comment> \<open>the change listener of lines 490-495 is attached\<close>
  previewActive :: bool          \<comment> \<open>\<^verbatim>\<open>entry.element\<close> has class \<^verbatim>\<open>preview-active\<close>\<close>

definition buildEntry :: "entry_element \<Rightarrow> file_entry" where
  "buildEntry el =
     \<lparr> path = or_js (dataVideoPath el) [],
       name = or_js (dataVideoName el) (or_js (dataVideoPath el) []),
       previewSrc = or_js (dataVideoSrc el) [],
       checkbox = videosInput el,
       changeListener = False,
       previewActive = classPreviewActive el \<rparr>"

text \<open>A \<^verbatim>\<open>[data-preview-trigger]\<close> element; \<open>closestEntry\<close> is the entry element around it.\<close>

record trigger =
  trigVideoName :: "string option"
  trigVideoSrc :: "string option"
  trigVideoPath :: "string option"
  closestEntry :: "nat option"

text \<open>An \<^verbatim>\<open>li\<close> built by \<^verbatim>\<open>buildSelectedListItem\<close>.\<close>

record selected_item =
  nodeId :: nat
  selectedVideoItem :: string    \<comment> \<open>\<^verbatim>\<open>dataset.selectedVideoItem\<close>\<close>
  itemEntry :: nat               \<comment> \<open>the entry captured by the item's listeners\<close>
  titleText :: string
  moveUpDisabled :: bool
  moveDownDisabled :: bool
  itemPreview :: "trigger option"

record selected_list =
  initialOrder :: "string option"   \<comment> \<open>\<^verbatim>\<open>dataset.initialOrder\<close>\<close>
  children :: "selected_item list"

record hidden_input =
  inputType :: string
  inputName :: string
  inputValue :: string

text \<open>An \<^verbatim>\<open>li\<close> built by \<^verbatim>\<open>buildResultItem\<close>.\<close>

record result_item =
  resultEntry :: nat
  mirrorChecked :: bool
  textSpan :: string
  resultPreview :: "trigger option"

record results_list =
  listHidden :: bool                \<comment> \<open>class \<^verbatim>\<open>d-none\<close>\<close>
  resultItems :: "result_item list"

record video =
  src :: "string option"
  playing :: bool

record modal =
  modalHidden :: bool               \<comment> \<open>class \<^verbatim>\<open>d-none\<close>\<close>
  previewVideo :: "video option"
  previewTitle :: "string option"

record page =
  playlistEditor :: bool
  fileEntries :: "file_entry list"
  selectedList :: "selected_list option"
  selectedEmptyState :: "bool option"          \<comment> \<open>class \<^verbatim>\<open>d-none\<close>\<close>
  selectedCount :: "string option"             \<comment> \<open>\<^verbatim>\<open>textContent\<close>\<close>
  selectedEntryMap :: "(string \<times> nat) list"    \<comment> \<open>the Map from path to item node\<close>
  orderedInputsContainer :: "hidden_input list option"
  nextNode :: nat                              \<comment> \<open>the next unused node identifier\<close>
  searchInput :: "string option"               \<comment> \<open>\<^verbatim>\<open>value\<close>\<close>
  inputListener :: bool
  clearButton :: bool
  clearListener :: bool
  resultsWrapper :: "bool option"              \<comment> \<open>class \<^verbatim>\<open>d-none\<close>\<close>
  resultsList :: "results_list option"
  noResultsAlert :: "bool option"              \<comment> \<open>class \<^verbatim>\<open>d-none\<close>\<close>
  previewModal :: "modal option"
  bodyOverflowHidden :: bool
  activePreviewEntry :: "nat option"
  previewListeners :: bool

subsection \<open>The DOM operations on the selected list\<close>

definition nodeIndex :: "selected_item list \<Rightarrow> nat \<Rightarrow> nat option" where
  "nodeIndex xs n = (if n \<in> set (map nodeId xs) then Some (length (takeWhile (\<lambda>it. nodeId it \<noteq> n) xs)) else None)"

definition removeNode :: "selected_item list \<Rightarrow> nat \<Rightarrow> selected_item list" where
  "removeNode xs n = filter (\<lambda>it. nodeId it \<noteq> n) xs"

text \<open>\<^verbatim>\<open>appendChild\<close> moves a node that is already a child to the end.\<close>

definition appendChild :: "selected_item list \<Rightarrow> selected_item \<Rightarrow> selected_item list" where
  "appendChild xs node = removeNode xs (nodeId node) @ [node]"

definition previousElementSibling :: "selected_item list \<Rightarrow> nat \<Rightarrow> nat option" where
  "previousElementSibling xs n =
     (case nodeIndex xs n of
        None \<Rightarrow> None
      | Some 0 \<Rightarrow> None
      | Some (Suc i) \<Rightarrow> Some (nodeId (xs ! i)))"

definition nextElementSibling :: "selected_item list \<Rightarrow> nat \<Rightarrow> nat option" where
  "nextElementSibling xs n =
     (case nodeIndex xs n of
        None \<Rightarrow> None
      | Some i \<Rightarrow> if Suc i < length xs then Some (nodeId (xs ! Suc i)) else None)"

text \<open>
  \<^verbatim>\<open>parent.insertBefore(node, ref)\<close> for a child \<open>node\<close>: the node is taken out and put
  back in front of \<open>ref\<close>, at the end when \<open>ref\<close> is null.
\<close>

definition insertBefore :: "selected_item list \<Rightarrow> nat \<Rightarrow> nat option \<Rightarrow> selected_item list" where
  "insertBefore xs n ref =
     (case find (\<lambda>it. nodeId it = n) xs of
        None \<Rightarrow> xs
      | Some node \<Rightarrow>
          (case ref of
             None \<Rightarrow> removeNode xs n @ [node]
           | Some r \<Rightarrow>
               takeWhile (\<lambda>it. nodeId it \<noteq> r) (removeNode xs n) @ node #
               dropWhile (\<lambda>it. nodeId it \<noteq> r) (removeNode xs n)))"

subsection \<open>Selection model and order serializer (lines 44-233)\<close>

definition updateSelectedSummary :: "page \<Rightarrow> page" where
  "updateSelectedSummary pg =
     (case selectedList pg of
        None \<Rightarrow> pg
      | Some sl \<Rightarrow>
          let itemCount = length (children sl) in
          pg\<lparr> selectedEmptyState := map_option (\<lambda>_. itemCount > 0) (selectedEmptyState pg),
              selectedCount :=
                map_option (\<lambda>_. if itemCount = 1 then ''1 Video'' else show_nat itemCount @ '' Videos'')
                  (selectedCount pg) \<rparr>)"

definition orderedInput :: "string \<Rightarrow> hidden_input" where
  "orderedInput p = \<lparr> inputType = ''hidden'', inputName = ''ordered_videos'', inputValue = p \<rparr>"

definition refreshOrderedInputs :: "page \<Rightarrow> page" where
  "refreshOrderedInputs pg =
     (case orderedInputsContainer pg of
        None \<Rightarrow> pg
      | Some _ \<Rightarrow>
          (case selectedList pg of
             None \<Rightarrow> pg
           | Some sl \<Rightarrow>
               pg\<lparr> orderedInputsContainer :=
                     Some (foldl (\<lambda>inputs item.
                                    if selectedVideoItem item = [] then inputs
                                    else inputs @ [orderedInput (selectedVideoItem item)])
                                 [] (children sl)) \<rparr>))"

text \<open>The \<^verbatim>\<open>forEach\<close> of lines 82-91: every item has both buttons.\<close>

definition setReorderControls :: "selected_item list \<Rightarrow> selected_item list" where
  "setReorderControls items =
     map (\<lambda>(index, item). item\<lparr> moveUpDisabled := (index = 0),
                                 moveDownDisabled := (Suc index = length items) \<rparr>)
       (enumerate 0 items)"

definition updateReorderControls :: "page \<Rightarrow> page" where
  "updateReorderControls pg =
     (case selectedList pg of
        None \<Rightarrow> pg
      | Some sl \<Rightarrow> pg\<lparr> selectedList := Some (sl\<lparr> children := setReorderControls (children sl) \<rparr>) \<rparr>)"

definition setChildren :: "selected_item list \<Rightarrow> page \<Rightarrow> page" where
  "setChildren xs pg = pg\<lparr> selectedList := map_option (\<lambda>sl. sl\<lparr> children := xs \<rparr>) (selectedList pg) \<rparr>"

definition moveSelectedItem :: "nat \<Rightarrow> int \<Rightarrow> page \<Rightarrow> page" where
  "moveSelectedItem item direction pg =
     (case selectedList pg of
        None \<Rightarrow> pg
      | Some sl \<Rightarrow>
          if direction < 0 then
            (case previousElementSibling (children sl) item of
               None \<Rightarrow> pg
             | Some previous \<Rightarrow>
                 updateSelectedSummary (updateReorderControls (refreshOrderedInputs
                   (setChildren (insertBefore (children sl) item (Some previous)) pg))))
          else if direction > 0 then
            (case nextElementSibling (children sl) item of
               None \<Rightarrow> pg
             | Some next \<Rightarrow>
                 updateSelectedSummary (updateReorderControls (refreshOrderedInputs
                   (setChildren (insertBefore (children sl) item (nextElementSibling (children sl) next)) pg))))
          else updateSelectedSummary (updateReorderControls (refreshOrderedInputs pg)))"

text \<open>
  \<^verbatim>\<open>buildSelectedListItem\<close>: the new \<^verbatim>\<open>li\<close> with its two reorder buttons (enabled), the
  preview button when the entry has a preview source, and the remove button.
\<close>

definition buildSelectedListItem :: "nat \<Rightarrow> nat \<Rightarrow> file_entry \<Rightarrow> selected_item" where
  "buildSelectedListItem node i entry =
     \<lparr> nodeId = node,
       selectedVideoItem = path entry,
       itemEntry = i,
       titleText = (if name entry \<noteq> [] then name entry else path entry),
       moveUpDisabled = False,
       moveDownDisabled = False,
       itemPreview =
         (if previewSrc entry \<noteq> [] then
            Some \<lparr> trigVideoName = Some (if name entry \<noteq> [] then name entry else path entry),
                   trigVideoSrc = Some (previewSrc entry),
                   trigVideoPath = Some (path entry),
                   closestEntry = None \<rparr>
          else None) \<rparr>"

definition syncSelectedEntry :: "nat \<Rightarrow> page \<Rightarrow> page" where
  "syncSelectedEntry i pg =
     (let entry = fileEntries pg ! i in
      case selectedList pg of
        None \<Rightarrow> pg
      | Some sl \<Rightarrow>
          if path entry = [] then pg
          else
            (case checkbox entry of
               None \<Rightarrow> pg
             | Some checked \<Rightarrow>
                 let existingItem = map_of (selectedEntryMap pg) (path entry);
                     pg' =
                       (if checked then
                          (case existingItem of
                             None \<Rightarrow>
                               let item = buildSelectedListItem (nextNode pg) i entry in
                               setChildren (appendChild (children sl) item)
                                 (pg\<lparr> nextNode := Suc (nextNode pg),
                                     selectedEntryMap := AList.update (path entry) (nodeId item) (selectedEntryMap pg) \<rparr>)
                           | Some _ \<Rightarrow> pg)
                        else
                          (case existingItem of
                             None \<Rightarrow> pg
                           | Some n \<Rightarrow>
                               (setChildren (removeNode (children sl) n) pg)
                                 \<lparr> selectedEntryMap := AList.delete (path entry) (selectedEntryMap pg) \<rparr>))
                 in updateReorderControls (refreshOrderedInputs (updateSelectedSummary pg'))))"

text \<open>
  \<^verbatim>\<open>selectedListInitialOrder\<close> (lines 33-42). \<open>JSON_parse\<close> is the browser's parser:
  \<open>None\<close> when it raises a SyntaxError, which the \<^verbatim>\<open>try\<close> catches.
\<close>

definition selectedListInitialOrder :: "(string \<Rightarrow> js_value option) \<Rightarrow> page \<Rightarrow> js_value" where
  "selectedListInitialOrder JSON_parse pg =
     (case selectedList pg of
        None \<Rightarrow> JArr []
      | Some sl \<Rightarrow>
          (case initialOrder sl of
             None \<Rightarrow> JArr []
           | Some text \<Rightarrow>
               if text = [] then JArr []
               else (case JSON_parse text of None \<Rightarrow> JArr [] | Some v \<Rightarrow> v)))"

text \<open>
  \<^verbatim>\<open>applyInitialOrder\<close> (lines 208-233). \<open>itemsByPath\<close> is a Map built from an array of
  pairs, so a later pair replaces an earlier one with the same key; \<^verbatim>\<open>Map.get\<close> finds
  nothing for a key that is not a string.
\<close>

definition itemsByPath :: "selected_item list \<Rightarrow> js_value \<Rightarrow> nat option" where
  "itemsByPath items key =
     (case key of
        JStr p \<Rightarrow> map_of (rev (map (\<lambda>item. (selectedVideoItem item, nodeId item)) items)) p
      | _ \<Rightarrow> None)"

text \<open>The callback of \<^verbatim>\<open>selectedListInitialOrder.forEach\<close> (lines 224-229), on the list's children.\<close>

definition appendListed :: "selected_item list \<Rightarrow> selected_item list \<Rightarrow> js_value \<Rightarrow> selected_item list" where
  "appendListed items xs p =
     (case itemsByPath items p of
        None \<Rightarrow> xs
      | Some item \<Rightarrow> insertBefore xs item None)"

definition applyInitialOrder :: "js_value \<Rightarrow> page \<Rightarrow> js_error + page" where
  "applyInitialOrder order pg =
     (case selectedList pg of
        None \<Rightarrow> Inr pg
      | Some sl \<Rightarrow>
          (case js_length order of
             Inl e \<Rightarrow> Inl e
           | Inr len \<Rightarrow>
               if len = Some (JNum 0) then
                 Inr (updateSelectedSummary (updateReorderControls (refreshOrderedInputs pg)))
               else
                 (case js_forEach order of
                    Inl e \<Rightarrow> Inl e
                  | Inr paths \<Rightarrow>
                      Inr (updateSelectedSummary (updateReorderControls (refreshOrderedInputs
                        (setChildren (foldl (appendListed (children sl)) (children sl) paths) pg)))))))"

subsection \<open>Preview coordinator (lines 235-330)\<close>

text \<open>
  \<^verbatim>\<open>fileEntryMap\<close>: the Map from each non-empty path to its entry; of two entries with the
  same path the later one is kept.
\<close>

definition fileEntryMap :: "file_entry list \<Rightarrow> string \<Rightarrow> nat option" where
  "fileEntryMap es =
     map_of (rev (filter (\<lambda>(p, i). p \<noteq> []) (zip (map path es) [0..<length es])))"

definition setPreviewActive :: "nat \<Rightarrow> bool \<Rightarrow> file_entry list \<Rightarrow> file_entry list" where
  "setPreviewActive i b es = es[i := (es ! i)\<lparr> previewActive := b \<rparr>]"

definition highlightPreviewEntry :: "string \<Rightarrow> page \<Rightarrow> page" where
  "highlightPreviewEntry p pg =
     (if p = [] then pg
      else
        (case fileEntryMap (fileEntries pg) p of
           None \<Rightarrow> pg
         | Some entry \<Rightarrow>
             let es = (case activePreviewEntry pg of
                         None \<Rightarrow> fileEntries pg
                       | Some active \<Rightarrow>
                           if active \<noteq> entry then setPreviewActive active False (fileEntries pg)
                           else fileEntries pg)
             in pg\<lparr> fileEntries := setPreviewActive entry True es,
                    activePreviewEntry := Some entry \<rparr>))"

definition isPreviewOpen :: "page \<Rightarrow> bool" where
  "isPreviewOpen pg = (case previewModal pg of None \<Rightarrow> False | Some m \<Rightarrow> \<not> modalHidden m)"

definition closePreview :: "page \<Rightarrow> page" where
  "closePreview pg =
     (case previewModal pg of
        None \<Rightarrow> pg
      | Some m \<Rightarrow>
          pg\<lparr> previewModal :=
                Some (m\<lparr> previewVideo := map_option (\<lambda>v. v\<lparr> src := None, playing := False \<rparr>) (previewVideo m),
                         modalHidden := True \<rparr>),
              bodyOverflowHidden := False \<rparr>)"

definition openPreview :: "string \<Rightarrow> string \<Rightarrow> string \<Rightarrow> page \<Rightarrow> page" where
  "openPreview videoName videoSrc videoPath pg =
     (case previewModal pg of
        None \<Rightarrow> pg
      | Some m \<Rightarrow>
          (case previewVideo m of
             None \<Rightarrow> pg
           | Some v \<Rightarrow>
               if videoSrc = [] then pg
               else
                 let title = (if videoName \<noteq> [] then ''Vorschau: '' @ videoName else ''Vorschau'');
                     pg1 = highlightPreviewEntry videoPath pg
                 in pg1\<lparr> previewModal :=
                           Some (m\<lparr> previewTitle := map_option (\<lambda>_. title) (previewTitle m),
                                    previewVideo := Some (v\<lparr> src := Some videoSrc, playing := True \<rparr>),
                                    modalHidden := False \<rparr>),
                         bodyOverflowHidden := True \<rparr>))"

text \<open>The document's click listener of lines 314-330, for a click inside trigger \<open>t\<close>.\<close>

definition previewTriggerClick :: "trigger \<Rightarrow> page \<Rightarrow> page" where
  "previewTriggerClick t pg =
     (let videoName = or_js (trigVideoName t) [];
          videoSrc = or_js (trigVideoSrc t) [];
          videoPath = or_js (trigVideoPath t) [];
          pg1 = (case closestEntry t of
                   None \<Rightarrow> highlightPreviewEntry videoPath pg
                 | Some e \<Rightarrow>
                     if path (fileEntries pg ! e) \<noteq> [] then highlightPreviewEntry (path (fileEntries pg ! e)) pg
                     else highlightPreviewEntry videoPath pg)
      in openPreview videoName videoSrc videoPath pg1)"

subsection \<open>Search mirror (lines 394-484)\<close>

definition buildResultItem :: "nat \<Rightarrow> file_entry \<Rightarrow> result_item" where
  "buildResultItem i entry =
     \<lparr> resultEntry = i,
       mirrorChecked = (case checkbox entry of None \<Rightarrow> False | Some c \<Rightarrow> c),
       textSpan = path entry,
       resultPreview =
         (if previewSrc entry \<noteq> [] then
            Some \<lparr> trigVideoName = Some (if name entry \<noteq> [] then name entry else path entry),
                   trigVideoSrc = Some (previewSrc entry),
                   trigVideoPath = Some (path entry),
                   closestEntry = None \<rparr>
          else None) \<rparr>"

definition clearResults :: "page \<Rightarrow> page" where
  "clearResults pg =
     pg\<lparr> resultsList := map_option (\<lambda>rl. rl\<lparr> resultItems := [] \<rparr>) (resultsList pg),
         resultsWrapper := map_option (\<lambda>_. True) (resultsWrapper pg),
         noResultsAlert := map_option (\<lambda>_. True) (noResultsAlert pg) \<rparr>"

text \<open>
  \<^verbatim>\<open>updateResults\<close> is defined behind the guard of line 377, so the search input, the
  results wrapper and the results list exist whenever it runs.
\<close>

definition updateResults :: "page \<Rightarrow> page" where
  "updateResults pg =
     (case searchInput pg of
        None \<Rightarrow> pg
      | Some v \<Rightarrow>
          let query = toLowerCase (trim v) in
          if query = [] then clearResults pg
          else
            let matches = filter (\<lambda>(i, entry). includes_js (toLowerCase (path entry)) query)
                            (enumerate 0 (fileEntries pg))
            in if length matches = 0 then
                 pg\<lparr> resultsList := map_option (\<lambda>rl. rl\<lparr> resultItems := [], listHidden := True \<rparr>) (resultsList pg),
                     resultsWrapper := map_option (\<lambda>_. False) (resultsWrapper pg),
                     noResultsAlert := map_option (\<lambda>_. False) (noResultsAlert pg) \<rparr>
               else
                 pg\<lparr> resultsList :=
                       map_option (\<lambda>rl. rl\<lparr> resultItems := map (\<lambda>(i, entry). buildResultItem i entry) matches,
                                              listHidden := False \<rparr>) (resultsList pg),
                     resultsWrapper := map_option (\<lambda>_. False) (resultsWrapper pg),
                     noResultsAlert := map_option (\<lambda>_. True) (noResultsAlert pg) \<rparr>)"

subsection \<open>Listeners and events\<close>

definition setChecked :: "nat \<Rightarrow> bool \<Rightarrow> page \<Rightarrow> page" where
  "setChecked i b pg = pg\<lparr> fileEntries := (fileEntries pg)[i := (fileEntries pg ! i)\<lparr> checkbox := Some b \<rparr>] \<rparr>"

text \<open>A change event arriving at the native checkbox of entry \<open>i\<close> (lines 490-495).\<close>

definition dispatchChange :: "nat \<Rightarrow> page \<Rightarrow> page" where
  "dispatchChange i pg =
     (if changeListener (fileEntries pg ! i) then
        let pg' = syncSelectedEntry i pg in
        (case searchInput pg' of
           None \<Rightarrow> pg'
         | Some v \<Rightarrow> if trim v \<noteq> [] then updateResults pg' else pg')
      else pg)"

text \<open>The change listener of a mirror checkbox (lines 406-411), after the browser flipped it.\<close>

definition mirrorChange :: "result_item \<Rightarrow> page \<Rightarrow> page" where
  "mirrorChange r pg =
     (case checkbox (fileEntries pg ! resultEntry r) of
        None \<Rightarrow> pg
      | Some _ \<Rightarrow> dispatchChange (resultEntry r) (setChecked (resultEntry r) (mirrorChecked r) pg))"

text \<open>The click listener of an item's remove button (lines 174-179).\<close>

definition removeClick :: "selected_item \<Rightarrow> page \<Rightarrow> page" where
  "removeClick item pg =
     (case checkbox (fileEntries pg ! itemEntry item) of
        None \<Rightarrow> pg
      | Some _ \<Rightarrow> dispatchChange (itemEntry item) (setChecked (itemEntry item) False pg))"

definition flipMirror :: "nat \<Rightarrow> page \<Rightarrow> page" where
  "flipMirror k pg =
     pg\<lparr> resultsList :=
           map_option (\<lambda>rl. rl\<lparr> resultItems :=
                         (resultItems rl)[k := (resultItems rl ! k)\<lparr> mirrorChecked := \<not> mirrorChecked (resultItems rl ! k) \<rparr>] \<rparr>)
             (resultsList pg) \<rparr>"

text \<open>
  What a user can do on the page. The browser flips a checkbox before it dispatches the
  change event, and a disabled button receives no click.
\<close>

datatype event =
    NativeToggle nat          \<comment> \<open>the checkbox of the \<open>i\<close>-th catalog entry\<close>
  | MirrorToggle nat          \<comment> \<open>the proxy checkbox of the \<open>k\<close>-th search result\<close>
  | RemoveClick nat           \<comment> \<open>the remove button of the \<open>k\<close>-th selected item\<close>
  | MoveUpClick nat
  | MoveDownClick nat
  | SearchInput string        \<comment> \<open>the search box now holds this text\<close>
  | ClearClick
  | PreviewClick trigger
  | CloseClick
  | BackdropClick
  | KeyDown string

fun step :: "event \<Rightarrow> page \<Rightarrow> page" where
  "step (NativeToggle i) pg =
     (if i < length (fileEntries pg) then
        (case checkbox (fileEntries pg ! i) of
           None \<Rightarrow> pg
         | Some c \<Rightarrow> dispatchChange i (setChecked i (\<not> c) pg))
      else pg)"
| "step (MirrorToggle k) pg =
     (case resultsList pg of
        None \<Rightarrow> pg
      | Some rl \<Rightarrow>
          if k < length (resultItems rl) then
            mirrorChange ((resultItems rl ! k)\<lparr> mirrorChecked := \<not> mirrorChecked (resultItems rl ! k) \<rparr>)
              (flipMirror k pg)
          else pg)"
| "step (RemoveClick k) pg =
     (case selectedList pg of
        None \<Rightarrow> pg
      | Some sl \<Rightarrow> if k < length (children sl) then removeClick (children sl ! k) pg else pg)"
| "step (MoveUpClick k) pg =
     (case selectedList pg of
        None \<Rightarrow> pg
      | Some sl \<Rightarrow>
          if k < length (children sl) \<and> \<not> moveUpDisabled (children sl ! k)
          then moveSelectedItem (nodeId (children sl ! k)) (- 1) pg else pg)"
| "step (MoveDownClick k) pg =
     (case selectedList pg of
        None \<Rightarrow> pg
      | Some sl \<Rightarrow>
          if k < length (children sl) \<and> \<not> moveDownDisabled (children sl ! k)
          then moveSelectedItem (nodeId (children sl ! k)) 1 pg else pg)"
| "step (SearchInput v) pg =
     (case searchInput pg of
        None \<Rightarrow> pg
      | Some _ \<Rightarrow>
          if inputListener pg then updateResults (pg\<lparr> searchInput := Some v \<rparr>)
          else pg\<lparr> searchInput := Some v \<rparr>)"
| "step ClearClick pg =
     (if clearButton pg \<and> clearListener pg then clearResults (pg\<lparr> searchInput := Some [] \<rparr>) else pg)"
| "step (PreviewClick t) pg =
     (if previewListeners pg \<and> (case closestEntry t of None \<Rightarrow> True | Some e \<Rightarrow> e < length (fileEntries pg))
      then previewTriggerClick t pg else pg)"
| "step CloseClick pg = (if previewListeners pg then closePreview pg else pg)"
| "step BackdropClick pg = (if previewListeners pg then closePreview pg else pg)"
| "step (KeyDown key) pg =
     (if previewListeners pg \<and> key = ''Escape'' \<and> isPreviewOpen pg then closePreview pg else pg)"

definition run :: "event list \<Rightarrow> page \<Rightarrow> page" where
  "run evs pg = foldl (\<lambda>p e. step e p) pg evs"

subsection \<open>The \<^verbatim>\<open>DOMContentLoaded\<close> handler\<close>

text \<open>
  The handler either runs to its end or is cut short by an uncaught exception; the page
  keeps what was done up to that point.
\<close>

datatype outcome = Completed page | Threw js_error page

definition wireEntry :: "page \<Rightarrow> nat \<Rightarrow> page" where
  "wireEntry pg i =
     (case checkbox (fileEntries pg ! i) of
        None \<Rightarrow> pg
      | Some _ \<Rightarrow>
          syncSelectedEntry i
            (pg\<lparr> fileEntries := (fileEntries pg)[i := (fileEntries pg ! i)\<lparr> changeListener := True \<rparr>] \<rparr>))"

definition DOMContentLoaded :: "(string \<Rightarrow> js_value option) \<Rightarrow> entry_element list \<Rightarrow> page \<Rightarrow> outcome" where
  "DOMContentLoaded JSON_parse videoEntries pg =
     (if \<not> playlistEditor pg then Completed pg
      else
        let pg1 = pg\<lparr> fileEntries := map buildEntry videoEntries,
                      selectedEntryMap := [],
                      activePreviewEntry := None,
                      previewListeners := True \<rparr>;
            order = selectedListInitialOrder JSON_parse pg1
        in if searchInput pg1 = None \<or> resultsWrapper pg1 = None \<or> resultsList pg1 = None
           then Completed pg1
           else
             let pg2 = foldl wireEntry (pg1\<lparr> inputListener := True \<rparr>) [0..<length (fileEntries pg1)]
             in (case applyInitialOrder order pg2 of
                   Inl e \<Rightarrow> Threw e pg2
                 | Inr pg3 \<Rightarrow> Completed (if clearButton pg3 then pg3\<lparr> clearListener := True \<rparr> else pg3)))"

subsection \<open>What is observed of a page\<close>

definition panelItems :: "page \<Rightarrow> selected_item list" where
  "panelItems pg = (case selectedList pg of None \<Rightarrow> [] | Some sl \<Rightarrow> children sl)"

text \<open>The selection model's sequence: the identifiers of the selected list's items, in DOM order.\<close>

definition panelOrder :: "page \<Rightarrow> string list" where
  "panelOrder pg = map selectedVideoItem (panelItems pg)"

text \<open>The identifiers whose native toggle is on.\<close>

definition checkedPaths :: "file_entry list \<Rightarrow> string list" where
  "checkedPaths es = map path (filter (\<lambda>e. checkbox e = Some True) es)"

definition panelNodes :: "page \<Rightarrow> nat list" where
  "panelNodes pg = map nodeId (panelItems pg)"

text \<open>
  The script's two views of the selection agree: the Map \<^verbatim>\<open>selectedEntryMap\<close> holds exactly
  the items of the selected list under their identifiers, no identifier and no node occurs
  twice, and the nodes in use are below the next fresh one.
\<close>

definition panel_ok :: "page \<Rightarrow> bool" where
  "panel_ok pg \<longleftrightarrow>
     distinct (panelNodes pg) \<and>
     distinct (panelOrder pg) \<and>
     (\<forall>n \<in> set (panelNodes pg). n < nextNode pg) \<and>
     distinct (map fst (selectedEntryMap pg)) \<and>
     set (selectedEntryMap pg) = set (map (\<lambda>it. (selectedVideoItem it, nodeId it)) (panelItems pg))"

text \<open>The catalog's identifiers are non-empty and pairwise different.\<close>

definition catalog_ok :: "file_entry list \<Rightarrow> bool" where
  "catalog_ok es \<longleftrightarrow> distinct (map path es) \<and> [] \<notin> set (map path es)"

text \<open>
  The handler got past the guard of line 377: the selected list and the search elements
  exist, and every checkbox has its change listener.
\<close>

definition wired :: "page \<Rightarrow> bool" where
  "wired pg \<longleftrightarrow>
     selectedList pg \<noteq> None \<and> searchInput pg \<noteq> None \<and> resultsWrapper pg \<noteq> None \<and>
     resultsList pg \<noteq> None \<and> inputListener pg \<and>
     (\<forall>e \<in> set (fileEntries pg). checkbox e \<noteq> None \<longrightarrow> changeListener e)"

text \<open>Every item of the selected list belongs to the catalog entry whose identifier it shows.\<close>

definition panelLinks :: "page \<Rightarrow> (nat \<times> string) list" where
  "panelLinks pg = map (\<lambda>it. (itemEntry it, selectedVideoItem it)) (panelItems pg)"

definition items_linked :: "page \<Rightarrow> bool" where
  "items_linked pg \<longleftrightarrow>
     (\<forall>(i, p) \<in> set (panelLinks pg). i < length (fileEntries pg) \<and> path (fileEntries pg ! i) = p)"

text \<open>Invariant A: the identifiers in the selected list are those whose toggle is on.\<close>

definition toggles_match :: "page \<Rightarrow> bool" where
  "toggles_match pg \<longleftrightarrow> set (panelOrder pg) = set (checkedPaths (fileEntries pg))"

text \<open>
  Every proxy checkbox of the search results shows the state of its native checkbox, and
  results are listed only while the search box holds a query.
\<close>

definition mirror_ok :: "page \<Rightarrow> bool" where
  "mirror_ok pg \<longleftrightarrow>
     (case resultsList pg of
        None \<Rightarrow> True
      | Some rl \<Rightarrow>
          (\<forall>r \<in> set (resultItems rl).
             resultEntry r < length (fileEntries pg) \<and>
             (case checkbox (fileEntries pg ! resultEntry r) of
                None \<Rightarrow> True
              | Some c \<Rightarrow> mirrorChecked r = c)) \<and>
          (resultItems rl = [] \<or> (case searchInput pg of None \<Rightarrow> False | Some v \<Rightarrow> trim v \<noteq> [])))"

text \<open>The hidden fields, when the page has their container, spell the selection in order.\<close>

definition serialized :: "page \<Rightarrow> bool" where
  "serialized pg \<longleftrightarrow>
     (case orderedInputsContainer pg of
        None \<Rightarrow> True
      | Some inputs \<Rightarrow> inputs = map orderedInput (panelOrder pg))"

definition selection_ok :: "page \<Rightarrow> bool" where
  "selection_ok pg \<longleftrightarrow>
     wired pg \<and> catalog_ok (fileEntries pg) \<and> panel_ok pg \<and> items_linked pg \<and>
     toggles_match pg \<and> mirror_ok pg"

text \<open>
  A page as it arrives from the server, before the script has run: the editor, an empty
  selected list and the search elements with no result yet.
\<close>

definition server_rendered :: "page \<Rightarrow> bool" where
  "server_rendered pg \<longleftrightarrow>
     playlistEditor pg \<and> selectedList pg \<noteq> None \<and> panelItems pg = [] \<and>
     searchInput pg \<noteq> None \<and> resultsWrapper pg \<noteq> None \<and>
     (case resultsList pg of None \<Rightarrow> False | Some rl \<Rightarrow> resultItems rl = [])"

text \<open>
  The state of the loop of lines 488-498 once the first \<open>k\<close> entries of the catalog
  \<open>es0\<close> are done: their checkboxes are wired and the selected list shows those of them
  that are checked.
\<close>

definition wired_upto :: "nat \<Rightarrow> file_entry list \<Rightarrow> page \<Rightarrow> bool" where
  "wired_upto k es0 pg \<longleftrightarrow>
     panel_ok pg \<and> items_linked pg \<and> selectedList pg \<noteq> None \<and>
     map path (fileEntries pg) = map path es0 \<and>
     map checkbox (fileEntries pg) = map checkbox es0 \<and>
     set (panelOrder pg) = set (checkedPaths (take k es0)) \<and>
     (\<forall>j \<in> set [0..<k]. checkbox (es0 ! j) \<noteq> None \<longrightarrow> changeListener (fileEntries pg ! j))"

text \<open>The three refreshes that end every mutation of the selection model.\<close>

definition refreshAll :: "page \<Rightarrow> page" where
  "refreshAll pg = updateReorderControls (refreshOrderedInputs (updateSelectedSummary pg))"


text \<open>
  The words of the specification for the search, stated without the string functions of
  the script. A blank is one of the code units 9 to 13, 32 and 160. The capital letters
  are A to Z (65 to 90), \<^verbatim>\<open>U+00C0\<close> to \<^verbatim>\<open>U+00D6\<close> (192 to 214) and \<^verbatim>\<open>U+00D8\<close> to
  \<^verbatim>\<open>U+00DE\<close> (216 to 222); the small form of each lies 32 above it. Two code units are the
  same letter when they are equal or one is the small form of the other.
\<close>

definition blank :: "char \<Rightarrow> bool" where
  "blank c \<longleftrightarrow> (of_char c :: nat) \<in> {9, 10, 11, 12, 13, 32, 160}"

definition blankOnly :: "string \<Rightarrow> bool" where
  "blankOnly s \<longleftrightarrow> list_all blank s"




text \<open>The catalog entry at position \<open>i\<close> carries the active-preview highlight.\<close>

definition highlighted :: "page \<Rightarrow> nat \<Rightarrow> bool" where
  "highlighted pg i \<longleftrightarrow> i < length (fileEntries pg) \<and> previewActive (fileEntries pg ! i)"

definition previewFlags :: "page \<Rightarrow> bool list" where
  "previewFlags pg = map previewActive (fileEntries pg)"

text \<open>The preview video still has a source or is playing.\<close>

definition previewLoaded :: "page \<Rightarrow> bool" where
  "previewLoaded pg =
     (case previewModal pg of
        None \<Rightarrow> False
      | Some m \<Rightarrow> (case previewVideo m of None \<Rightarrow> False | Some v \<Rightarrow> playing v \<or> src v \<noteq> None))"

definition isPreviewClick :: "event \<Rightarrow> bool" where
  "isPreviewClick e = (case e of PreviewClick t \<Rightarrow> True | _ \<Rightarrow> False)"

text \<open>The page has a modal with a video element and the trigger names a media source.\<close>

definition canPreview :: "page \<Rightarrow> trigger \<Rightarrow> bool" where
  "canPreview pg t \<longleftrightarrow>
     (case previewModal pg of None \<Rightarrow> False | Some m \<Rightarrow> previewVideo m \<noteq> None) \<and>
     or_js (trigVideoSrc t) [] \<noteq> []"

text \<open>
  Entry \<open>i\<close> is highlighted, or the active preview entry is another one that is.
\<close>

definition highlightKept :: "page \<Rightarrow> nat \<Rightarrow> bool" where
  "highlightKept pg i \<longleftrightarrow>
     highlighted pg i \<or>
     (case activePreviewEntry pg of None \<Rightarrow> False | Some j \<Rightarrow> j \<noteq> i \<and> highlighted pg j)"

definition pageOf :: "outcome \<Rightarrow> page" where
  "pageOf out = (case out of Completed pg \<Rightarrow> pg | Threw e pg \<Rightarrow> pg)"

definition threw :: "outcome \<Rightarrow> bool" where
  "threw out = (case out of Completed pg \<Rightarrow> False | Threw e pg \<Rightarrow> True)"

definition resultOrder :: "js_error + page \<Rightarrow> string list option" where
  "resultOrder r = (case r of Inl e \<Rightarrow> None | Inr pg \<Rightarrow> Some (panelOrder pg))"

text \<open>Moving one listed identifier to the end of a sequence of identifiers.\<close>

definition movePath :: "string list \<Rightarrow> string list \<Rightarrow> js_value \<Rightarrow> string list" where
  "movePath ps0 ps v =
     (case v of
        JStr p \<Rightarrow> if p \<in> set ps0 then filter (\<lambda>x. x \<noteq> p) ps @ [p] else ps
      | _ \<Rightarrow> ps)"

text \<open>The strings among the elements of a parsed array.\<close>

fun strings :: "js_value list \<Rightarrow> string list" where
  "strings [] = []"
| "strings (JStr p # vs) = p # strings vs"
| "strings (v # vs) = strings vs"

subsection \<open>Example pages\<close>

text \<open>A rendered catalog entry with a checkbox, no display name and no preview source.\<close>

definition entryEl :: "string \<Rightarrow> bool \<Rightarrow> entry_element" where
  "entryEl p c =
     \<lparr> dataVideoPath = Some p, dataVideoName = None, dataVideoSrc = None,
       videosInput = Some c, classPreviewActive = False \<rparr>"

text \<open>
  A page as the server renders it, with every surface present: an empty selected list
  carrying the given initial-order attribute, the search box and a closed preview modal.
\<close>

definition serverPage :: "string option \<Rightarrow> page" where
  "serverPage order =
     \<lparr> playlistEditor = True,
       fileEntries = [],
       selectedList = Some \<lparr> initialOrder = order, children = [] \<rparr>,
       selectedEmptyState = Some False,
       selectedCount = Some ''0 Videos'',
       selectedEntryMap = [],
       orderedInputsContainer = Some [],
       nextNode = 0,
       searchInput = Some [],
       inputListener = False,
       clearButton = True,
       clearListener = False,
       resultsWrapper = Some True,
       resultsList = Some \<lparr> listHidden = False, resultItems = [] \<rparr>,
       noResultsAlert = Some True,
       previewModal = Some \<lparr> modalHidden = True,
                             previewVideo = Some \<lparr> src = None, playing = False \<rparr>,
                             previewTitle = Some [] \<rparr>,
       bodyOverflowHidden = False,
       activePreviewEntry = None,
       previewListeners = False \<rparr>"

text \<open>
  \<^verbatim>\<open>JSON.parse\<close> on the texts the examples use: \<^verbatim>\<open>{}\<close> is the empty object and
  \<^verbatim>\<open>5\<close> a number; \<^verbatim>\<open>[c,a\<close> is not JSON.
\<close>

definition parseExample :: "string \<Rightarrow> js_value option" where
  "parseExample text =
     (if text = ''{}'' then Some (JObj [])
      else if text = ''5'' then Some (JNum 5)
      else None)"

definition abcEntries :: "entry_element list" where
  "abcEntries = [entryEl ''a'' True, entryEl ''b'' True, entryEl ''c'' True]"

definition abcItem :: "nat \<Rightarrow> string \<Rightarrow> bool \<Rightarrow> bool \<Rightarrow> selected_item" where
  "abcItem n p up down =
     \<lparr> nodeId = n, selectedVideoItem = p, itemEntry = n, titleText = p,
       moveUpDisabled = up, moveDownDisabled = down, itemPreview = None \<rparr>"

definition abcEntry :: "string \<Rightarrow> file_entry" where
  "abcEntry p =
     \<lparr> path = p, name = p, previewSrc = [], checkbox = Some True,
       changeListener = True, previewActive = False \<rparr>"

text \<open>A preview button rendered inside the catalog entry at position \<open>i\<close>.\<close>

definition abcTrigger :: "nat \<Rightarrow> string \<Rightarrow> trigger" where
  "abcTrigger i p =
     \<lparr> trigVideoName = Some p, trigVideoSrc = Some (''/media/'' @ p), trigVideoPath = Some p,
       closestEntry = Some i \<rparr>"


definition abcList :: selected_list where
  "abcList =
     \<lparr> initialOrder = None,
       children = [abcItem 0 ''a'' True False, abcItem 1 ''b'' False False, abcItem 2 ''c'' False True] \<rparr>"

text \<open>The page once the handler has run on \<open>abcEntries\<close> without an initial order.\<close>

definition loadedAbc :: page where
  "loadedAbc =
     (serverPage None)
       \<lparr> fileEntries := [abcEntry ''a'', abcEntry ''b'', abcEntry ''c''],
         selectedList := Some abcList,
         selectedEmptyState := Some True,
         selectedCount := Some ''3 Videos'',
         selectedEntryMap := [(''a'', 0), (''b'', 1), (''c'', 2)],
         orderedInputsContainer := Some [orderedInput ''a'', orderedInput ''b'', orderedInput ''c''],
         nextNode := 3,
         inputListener := True,
         clearListener := True,
         previewListeners := True \<rparr>"

section \<open>Lists of identifiers\<close>

lemma remdups_snoc: "remdups (s @ [p]) = filter (\<lambda>x. x \<noteq> p) (remdups s) @ [p]"
  by (induction s) auto

lemma strings_append: "strings (vs @ ws) = strings vs @ strings ws"
  by (induction vs rule: strings.induct) auto

lemma strings_set: "p \<in> set (strings vs) \<longleftrightarrow> JStr p \<in> set vs"
  by (induction vs rule: strings.induct) auto

lemma movePath_closed:
  "foldl (movePath ps0) ps0 vs =
     filter (\<lambda>p. JStr p \<notin> set vs) ps0 @ filter (\<lambda>p. p \<in> set ps0) (remdups (strings vs))"
proof (induction vs rule: rev_induct)
  case Nil
  then show ?case by simp
next
  case (snoc v vs)
  show ?case
  proof (cases v)
    case (JStr p)
    show ?thesis
    proof (cases "p \<in> set ps0")
      case True
      then show ?thesis using snoc JStr
        by (simp add: movePath_def strings_append remdups_snoc conj_commute)
    next
      case False
      have "filter (\<lambda>x. x \<in> set ps0) (filter (\<lambda>x. x \<noteq> p) (remdups (strings vs))) = filter (\<lambda>x. x \<in> set ps0) (remdups (strings vs))"
        using False by (auto intro!: filter_cong)
      moreover have "filter (\<lambda>x. JStr x \<notin> set vs \<and> x \<noteq> p) ps0 = filter (\<lambda>x. JStr x \<notin> set vs) ps0"
        using False by (auto intro!: filter_cong)
      ultimately show ?thesis using snoc JStr False
        by (simp add: movePath_def strings_append remdups_snoc conj_commute)
    qed
  qed (use snoc in \<open>auto simp: movePath_def strings_append intro!: filter_cong\<close>)
qed

section \<open>Moving items inside the selected list\<close>

lemma find_nodeId:
  "distinct (map nodeId ys) \<Longrightarrow> it \<in> set ys \<Longrightarrow> find (\<lambda>x. nodeId x = nodeId it) ys = Some it"
  by (induction ys) (auto simp: rev_image_eqI)

lemma itemsByPath_Some:
  assumes "distinct (map selectedVideoItem xs)"
  shows "itemsByPath xs v = Some n \<longleftrightarrow> (\<exists>it \<in> set xs. v = JStr (selectedVideoItem it) \<and> nodeId it = n)"
proof (cases v)
  case (JStr p)
  have d: "distinct (map fst (map (\<lambda>item. (selectedVideoItem item, nodeId item)) xs))"
    using assms by (simp add: comp_def)
  have "map_of (rev (map (\<lambda>item. (selectedVideoItem item, nodeId item)) xs)) p = Some n
        \<longleftrightarrow> (p, n) \<in> set (map (\<lambda>item. (selectedVideoItem item, nodeId item)) xs)"
    using d by (subst map_of_eq_Some_iff) (simp_all add: rev_map[symmetric] comp_def)
  then show ?thesis using JStr by (auto simp: itemsByPath_def)
qed (auto simp: itemsByPath_def)

lemma itemsByPath_None:
  assumes "distinct (map selectedVideoItem xs)"
  shows "itemsByPath xs v = None \<longleftrightarrow> (\<forall>it \<in> set xs. v \<noteq> JStr (selectedVideoItem it))"
  using itemsByPath_Some[OF assms, of v] by (cases "itemsByPath xs v") auto

lemma removeNode_by_path:
  assumes "distinct (map nodeId ys)" "distinct (map selectedVideoItem ys)" "it \<in> set ys"
  shows "removeNode ys (nodeId it) = filter (\<lambda>x. selectedVideoItem x \<noteq> selectedVideoItem it) ys"
  unfolding removeNode_def
proof (rule filter_cong[OF refl])
  fix x assume "x \<in> set ys"
  then show "(nodeId x \<noteq> nodeId it) = (selectedVideoItem x \<noteq> selectedVideoItem it)"
    using assms by (metis distinct_map inj_onD)
qed

lemma moveToEnd_step:
  assumes "distinct (map nodeId ys)" "distinct (map selectedVideoItem ys)" "set ys = set xs"
    and dx: "distinct (map selectedVideoItem xs)"
  shows "map selectedVideoItem (appendListed xs ys v)
           = movePath (map selectedVideoItem xs) (map selectedVideoItem ys) v
         \<and> distinct (map nodeId (appendListed xs ys v))
         \<and> distinct (map selectedVideoItem (appendListed xs ys v))
         \<and> set (appendListed xs ys v) = set xs"
proof -
  show ?thesis
  proof (cases "itemsByPath xs v")
    case None
    then have "\<forall>it \<in> set xs. v \<noteq> JStr (selectedVideoItem it)"
      using itemsByPath_None[OF dx] by simp
    then have "movePath (map selectedVideoItem xs) (map selectedVideoItem ys) v = map selectedVideoItem ys"
      by (cases v) (auto simp: movePath_def)
    then show ?thesis using None assms by (simp add: appendListed_def)
  next
    case (Some n)
    then obtain it where it: "it \<in> set xs" "v = JStr (selectedVideoItem it)" "nodeId it = n"
      using itemsByPath_Some[OF dx] by blast
    have iy: "it \<in> set ys" using it assms by simp
    have ib: "insertBefore ys n None = filter (\<lambda>x. selectedVideoItem x \<noteq> selectedVideoItem it) ys @ [it]"
      using find_nodeId[OF assms(1) iy] removeNode_by_path[OF assms(1,2) iy] it
      by (simp add: insertBefore_def)
    have m: "movePath (map selectedVideoItem xs) (map selectedVideoItem ys) v
             = filter (\<lambda>p. p \<noteq> selectedVideoItem it) (map selectedVideoItem ys) @ [selectedVideoItem it]"
      using it by (simp add: movePath_def)
    have ne: "\<And>x. x \<in> set ys \<Longrightarrow> x \<noteq> it \<Longrightarrow> selectedVideoItem x \<noteq> selectedVideoItem it"
      using assms(2) iy by (metis distinct_map inj_onD)
    have s: "set (filter (\<lambda>x. selectedVideoItem x \<noteq> selectedVideoItem it) ys @ [it]) = set xs"
      using iy assms(3) ne by auto
    have ni: "\<And>x. x \<in> set ys \<Longrightarrow> x \<noteq> it \<Longrightarrow> nodeId x \<noteq> nodeId it"
      using assms(1) iy by (metis distinct_map inj_onD)
    have d1: "distinct (map nodeId (filter (\<lambda>x. selectedVideoItem x \<noteq> selectedVideoItem it) ys @ [it]))"
    proof -
      have "nodeId it \<notin> nodeId ` {x \<in> set ys. selectedVideoItem x \<noteq> selectedVideoItem it}"
      proof
        assume "nodeId it \<in> nodeId ` {x \<in> set ys. selectedVideoItem x \<noteq> selectedVideoItem it}"
        then obtain x where "x \<in> set ys" "selectedVideoItem x \<noteq> selectedVideoItem it" "nodeId it = nodeId x"
          by blast
        then show False using ni[of x] by auto
      qed
      then show ?thesis using assms(1) by (simp add: distinct_map_filter)
    qed
    have d2: "distinct (map selectedVideoItem (filter (\<lambda>x. selectedVideoItem x \<noteq> selectedVideoItem it) ys @ [it]))"
      using assms(2) by (auto simp: distinct_map_filter)
    have m2: "map selectedVideoItem (filter (\<lambda>x. selectedVideoItem x \<noteq> selectedVideoItem it) ys @ [it])
              = filter (\<lambda>p. p \<noteq> selectedVideoItem it) (map selectedVideoItem ys) @ [selectedVideoItem it]"
      by (simp add: filter_map comp_def)
    show ?thesis using Some ib m m2 s d1 d2 by (simp add: appendListed_def)
  qed
qed


lemma moveToEnd_fold:
  assumes "distinct (map nodeId xs)" "distinct (map selectedVideoItem xs)"
  shows "map selectedVideoItem (foldl (appendListed xs) xs vs)
           = foldl (movePath (map selectedVideoItem xs)) (map selectedVideoItem xs) vs
         \<and> distinct (map nodeId (foldl (appendListed xs) xs vs))
         \<and> distinct (map selectedVideoItem (foldl (appendListed xs) xs vs))
         \<and> set (foldl (appendListed xs) xs vs) = set xs"
proof (induction vs rule: rev_induct)
  case Nil
  then show ?case using assms by simp
next
  case (snoc v vs)
  define ys where "ys = foldl (appendListed xs) xs vs"
  have ih: "map selectedVideoItem ys = foldl (movePath (map selectedVideoItem xs)) (map selectedVideoItem xs) vs"
    "distinct (map nodeId ys)" "distinct (map selectedVideoItem ys)" "set ys = set xs"
    using snoc unfolding ys_def by blast+
  show ?case
    unfolding foldl_append foldl.simps ys_def[symmetric] ih(1)[symmetric]
    by (rule moveToEnd_step[OF ih(2) ih(3) ih(4) assms(2)])
qed

section \<open>What the three refresh functions leave alone\<close>

lemma updateSelectedSummary_frame [simp]:
  "selectedList (updateSelectedSummary pg) = selectedList pg"
  "fileEntries (updateSelectedSummary pg) = fileEntries pg"
  "selectedEntryMap (updateSelectedSummary pg) = selectedEntryMap pg"
  "orderedInputsContainer (updateSelectedSummary pg) = orderedInputsContainer pg"
  "nextNode (updateSelectedSummary pg) = nextNode pg"
  "searchInput (updateSelectedSummary pg) = searchInput pg"
  "inputListener (updateSelectedSummary pg) = inputListener pg"
  "clearButton (updateSelectedSummary pg) = clearButton pg"
  "clearListener (updateSelectedSummary pg) = clearListener pg"
  "resultsWrapper (updateSelectedSummary pg) = resultsWrapper pg"
  "resultsList (updateSelectedSummary pg) = resultsList pg"
  "noResultsAlert (updateSelectedSummary pg) = noResultsAlert pg"
  "previewModal (updateSelectedSummary pg) = previewModal pg"
  "bodyOverflowHidden (updateSelectedSummary pg) = bodyOverflowHidden pg"
  "activePreviewEntry (updateSelectedSummary pg) = activePreviewEntry pg"
  "previewListeners (updateSelectedSummary pg) = previewListeners pg"
  "playlistEditor (updateSelectedSummary pg) = playlistEditor pg"
  by (simp_all add: updateSelectedSummary_def Let_def split: option.splits)

lemma refreshOrderedInputs_frame [simp]:
  "selectedList (refreshOrderedInputs pg) = selectedList pg"
  "fileEntries (refreshOrderedInputs pg) = fileEntries pg"
  "selectedEntryMap (refreshOrderedInputs pg) = selectedEntryMap pg"
  "selectedEmptyState (refreshOrderedInputs pg) = selectedEmptyState pg"
  "selectedCount (refreshOrderedInputs pg) = selectedCount pg"
  "nextNode (refreshOrderedInputs pg) = nextNode pg"
  "searchInput (refreshOrderedInputs pg) = searchInput pg"
  "inputListener (refreshOrderedInputs pg) = inputListener pg"
  "clearButton (refreshOrderedInputs pg) = clearButton pg"
  "clearListener (refreshOrderedInputs pg) = clearListener pg"
  "resultsWrapper (refreshOrderedInputs pg) = resultsWrapper pg"
  "resultsList (refreshOrderedInputs pg) = resultsList pg"
  "noResultsAlert (refreshOrderedInputs pg) = noResultsAlert pg"
  "previewModal (refreshOrderedInputs pg) = previewModal pg"
  "bodyOverflowHidden (refreshOrderedInputs pg) = bodyOverflowHidden pg"
  "activePreviewEntry (refreshOrderedInputs pg) = activePreviewEntry pg"
  "previewListeners (refreshOrderedInputs pg) = previewListeners pg"
  "playlistEditor (refreshOrderedInputs pg) = playlistEditor pg"
  by (simp_all add: refreshOrderedInputs_def split: option.splits)

lemma updateReorderControls_frame [simp]:
  "fileEntries (updateReorderControls pg) = fileEntries pg"
  "selectedEntryMap (updateReorderControls pg) = selectedEntryMap pg"
  "orderedInputsContainer (updateReorderControls pg) = orderedInputsContainer pg"
  "selectedEmptyState (updateReorderControls pg) = selectedEmptyState pg"
  "selectedCount (updateReorderControls pg) = selectedCount pg"
  "nextNode (updateReorderControls pg) = nextNode pg"
  "searchInput (updateReorderControls pg) = searchInput pg"
  "inputListener (updateReorderControls pg) = inputListener pg"
  "clearButton (updateReorderControls pg) = clearButton pg"
  "clearListener (updateReorderControls pg) = clearListener pg"
  "resultsWrapper (updateReorderControls pg) = resultsWrapper pg"
  "resultsList (updateReorderControls pg) = resultsList pg"
  "noResultsAlert (updateReorderControls pg) = noResultsAlert pg"
  "previewModal (updateReorderControls pg) = previewModal pg"
  "bodyOverflowHidden (updateReorderControls pg) = bodyOverflowHidden pg"
  "activePreviewEntry (updateReorderControls pg) = activePreviewEntry pg"
  "previewListeners (updateReorderControls pg) = previewListeners pg"
  "playlistEditor (updateReorderControls pg) = playlistEditor pg"
  by (simp_all add: updateReorderControls_def split: option.splits)

lemma setChildren_frame [simp]:
  "fileEntries (setChildren xs pg) = fileEntries pg"
  "selectedEntryMap (setChildren xs pg) = selectedEntryMap pg"
  "orderedInputsContainer (setChildren xs pg) = orderedInputsContainer pg"
  "selectedEmptyState (setChildren xs pg) = selectedEmptyState pg"
  "selectedCount (setChildren xs pg) = selectedCount pg"
  "nextNode (setChildren xs pg) = nextNode pg"
  "searchInput (setChildren xs pg) = searchInput pg"
  "inputListener (setChildren xs pg) = inputListener pg"
  "clearButton (setChildren xs pg) = clearButton pg"
  "clearListener (setChildren xs pg) = clearListener pg"
  "resultsWrapper (setChildren xs pg) = resultsWrapper pg"
  "resultsList (setChildren xs pg) = resultsList pg"
  "noResultsAlert (setChildren xs pg) = noResultsAlert pg"
  "previewModal (setChildren xs pg) = previewModal pg"
  "bodyOverflowHidden (setChildren xs pg) = bodyOverflowHidden pg"
  "activePreviewEntry (setChildren xs pg) = activePreviewEntry pg"
  "previewListeners (setChildren xs pg) = previewListeners pg"
  "playlistEditor (setChildren xs pg) = playlistEditor pg"
  by (simp_all add: setChildren_def)

lemma panelItems_simps [simp]:
  "panelItems (updateSelectedSummary pg) = panelItems pg"
  "panelItems (refreshOrderedInputs pg) = panelItems pg"
  "selectedList pg \<noteq> None \<Longrightarrow> panelItems (setChildren xs pg) = xs"
  "selectedList pg = None \<Longrightarrow> panelItems (setChildren xs pg) = []"
  by (auto simp: panelItems_def setChildren_def)

lemma selectedList_None_simps [simp]:
  "selectedList (updateReorderControls pg) = None \<longleftrightarrow> selectedList pg = None"
  "selectedList (setChildren xs pg) = None \<longleftrightarrow> selectedList pg = None"
  by (auto simp: updateReorderControls_def setChildren_def split: option.splits)

lemma panelItems_updateReorderControls [simp]:
  "panelItems (updateReorderControls pg) = setReorderControls (panelItems pg)"
  by (simp add: panelItems_def updateReorderControls_def setReorderControls_def enumerate_eq_zip split: option.splits)

lemma map_reorder:
  "(\<And>i it. f (g i it) = f it) \<Longrightarrow> map (f \<circ> (\<lambda>(i, it). g i it)) (enumerate n xs) = map f xs"
  by (induction xs arbitrary: n) auto

lemma setReorderControls_keeps [simp]:
  "map nodeId (setReorderControls xs) = map nodeId xs"
  "map selectedVideoItem (setReorderControls xs) = map selectedVideoItem xs"
  "map itemEntry (setReorderControls xs) = map itemEntry xs"
  "map (\<lambda>it. (selectedVideoItem it, nodeId it)) (setReorderControls xs) = map (\<lambda>it. (selectedVideoItem it, nodeId it)) xs"
  "length (setReorderControls xs) = length xs"
  by (simp_all add: setReorderControls_def map_reorder)

lemma panelOrder_simps [simp]:
  "panelOrder (updateSelectedSummary pg) = panelOrder pg"
  "panelOrder (refreshOrderedInputs pg) = panelOrder pg"
  "panelOrder (updateReorderControls pg) = panelOrder pg"
  "selectedList pg \<noteq> None \<Longrightarrow> panelOrder (setChildren xs pg) = map selectedVideoItem xs"
  by (simp_all add: panelOrder_def)

section \<open>Applying the initial order\<close>

text \<open>
  Claim C1, as amended. \<^verbatim>\<open>applyInitialOrder\<close> appends each listed item to the list, and
  \<^verbatim>\<open>appendChild\<close> moves a node that is already a child to the end. So the items the
  supplied order does not list stay in front, in encounter order, and the listed ones follow
  them, each at the place of its last occurrence in the supplied order.
\<close>

theorem applyInitialOrder_moves_listed_last:
  assumes "selectedList pg = Some sl"
    and "distinct (map nodeId (children sl))"
    and "distinct (map selectedVideoItem (children sl))"
  shows "\<exists>pg'. applyInitialOrder (JArr vs) pg = Inr pg' \<and>
           panelOrder pg' = filter (\<lambda>p. JStr p \<notin> set vs) (panelOrder pg) @
                            filter (\<lambda>p. p \<in> set (panelOrder pg)) (remdups (strings vs))"
proof (cases "vs = []")
  case True
  then show ?thesis using assms by (simp add: applyInitialOrder_def)
next
  case False
  have po: "panelOrder pg = map selectedVideoItem (children sl)"
    using assms(1) by (simp add: panelOrder_def panelItems_def)
  show ?thesis using False assms(1) moveToEnd_fold[OF assms(2,3), of vs] movePath_closed[of "map selectedVideoItem (children sl)" vs]
    by (simp add: applyInitialOrder_def po)
qed

section \<open>The example pages\<close>

lemma loadedAbc_handler: "DOMContentLoaded (\<lambda>_. None) abcEntries (serverPage None) = Completed loadedAbc"
  by code_simp

lemma loadedAbc_list: "selectedList loadedAbc = Some abcList"
  by code_simp

lemma abcList_distinct:
  "distinct (map nodeId (children abcList))"
  "distinct (map selectedVideoItem (children abcList))"
  by code_simp+

lemma loadedAbc_order: "panelOrder loadedAbc = [''a'', ''b'', ''c'']"
  by code_simp

text \<open>On the page with items a, b, c the order [c, a] leaves b in front and gives b, c, a.\<close>

theorem applyInitialOrder_moves_listed_last_witness:
  "selectedList loadedAbc = Some abcList
   \<and> distinct (map nodeId (children abcList))
   \<and> distinct (map selectedVideoItem (children abcList))
   \<and> (\<exists>pg'. applyInitialOrder (JArr [JStr ''c'', JStr ''a'']) loadedAbc = Inr pg' \<and>
             panelOrder pg' = [''b'', ''c'', ''a''])"
  using loadedAbc_list abcList_distinct
    applyInitialOrder_moves_listed_last[OF loadedAbc_list abcList_distinct, of "[JStr ''c'', JStr ''a'']"]
  by (simp add: loadedAbc_order)

text \<open>
  Claim C1 as written expects c, a, b for selected items a, b, c and the supplied order
  [c, a]; the script produces b, c, a.
\<close>

theorem applyInitialOrder_example_counterexample:
  "resultOrder (applyInitialOrder (JArr [JStr ''c'', JStr ''a'']) loadedAbc) = Some [''b'', ''c'', ''a'']
   \<and> resultOrder (applyInitialOrder (JArr [JStr ''c'', JStr ''a'']) loadedAbc) \<noteq> Some [''c'', ''a'', ''b'']"
  by code_simp

text \<open>
  Claim C2. On a page without the search box the handler returns at line 378, before the
  checkboxes are wired and before the initial order is applied: three entries are
  checked, yet the selected list and the hidden fields stay empty, and a later toggle is not
  observed either. The same page with a search box shows the three items.
\<close>

theorem missing_search_box_stops_selection:
  "checkedPaths (fileEntries (pageOf (DOMContentLoaded (\<lambda>_. None) abcEntries ((serverPage None)\<lparr> searchInput := None \<rparr>))))
     = [''a'', ''b'', ''c'']
   \<and> panelOrder (pageOf (DOMContentLoaded (\<lambda>_. None) abcEntries ((serverPage None)\<lparr> searchInput := None \<rparr>))) = []
   \<and> orderedInputsContainer (pageOf (DOMContentLoaded (\<lambda>_. None) abcEntries ((serverPage None)\<lparr> searchInput := None \<rparr>))) = Some []
   \<and> panelOrder (step (NativeToggle 0) (pageOf (DOMContentLoaded (\<lambda>_. None) abcEntries ((serverPage None)\<lparr> searchInput := None \<rparr>)))) = []
   \<and> panelOrder (pageOf (DOMContentLoaded (\<lambda>_. None) abcEntries (serverPage None))) = [''a'', ''b'', ''c'']"
  by code_simp

text \<open>
  Claim C3. An initial-order attribute that parses to a value that is not an array (the
  object \<^verbatim>\<open>{}\<close>, the number \<^verbatim>\<open>5\<close>) makes \<^verbatim>\<open>applyInitialOrder\<close> raise a
  TypeError at line 224, so the handler stops before the clear button is wired. Text that
  does not parse is caught at line 39 and the handler completes as without the attribute.
\<close>

theorem non_array_initial_order_throws:
  "threw (DOMContentLoaded parseExample abcEntries (serverPage (Some ''{}'')))
   \<and> \<not> clearListener (pageOf (DOMContentLoaded parseExample abcEntries (serverPage (Some ''{}''))))
   \<and> threw (DOMContentLoaded parseExample abcEntries (serverPage (Some ''5'')))
   \<and> \<not> threw (DOMContentLoaded parseExample abcEntries (serverPage (Some ''[c,a'')))
   \<and> \<not> threw (DOMContentLoaded parseExample abcEntries (serverPage None))
   \<and> clearListener (pageOf (DOMContentLoaded parseExample abcEntries (serverPage None)))"
  by code_simp

section \<open>Adjacent moves\<close>

lemma takeWhile_fresh:
  "n \<notin> nodeId ` set as \<Longrightarrow> takeWhile (\<lambda>it. nodeId it \<noteq> n) (as @ bs) = as @ takeWhile (\<lambda>it. nodeId it \<noteq> n) bs"
  by (induction as) auto

lemma dropWhile_fresh:
  "n \<notin> nodeId ` set as \<Longrightarrow> dropWhile (\<lambda>it. nodeId it \<noteq> n) (as @ bs) = dropWhile (\<lambda>it. nodeId it \<noteq> n) bs"
  by (induction as) auto

lemma filter_fresh:
  "n \<notin> nodeId ` set as \<Longrightarrow> filter (\<lambda>it. nodeId it \<noteq> n) as = as"
  by (induction as) auto

lemma find_fresh:
  "n \<notin> nodeId ` set as \<Longrightarrow> find (\<lambda>it. nodeId it = n) (as @ bs) = find (\<lambda>it. nodeId it = n) bs"
  by (induction as) auto

lemma nodeIndex_decomp:
  "nodeId a \<notin> nodeId ` set as \<Longrightarrow> nodeIndex (as @ a # bs) (nodeId a) = Some (length as)"
  by (simp add: nodeIndex_def takeWhile_fresh)

lemma previousElementSibling_first:
  "previousElementSibling (a # bs) (nodeId a) = None"
  by (simp add: previousElementSibling_def nodeIndex_def)

lemma previousElementSibling_decomp:
  assumes "distinct (map nodeId (as @ a # b # bs))"
  shows "previousElementSibling (as @ a # b # bs) (nodeId b) = Some (nodeId a)"
proof -
  have "nodeId b \<notin> nodeId ` set (as @ [a])" using assms by auto
  then have "nodeIndex ((as @ [a]) @ b # bs) (nodeId b) = Some (length (as @ [a]))"
    by (rule nodeIndex_decomp)
  then show ?thesis by (simp add: previousElementSibling_def nth_append)
qed

lemma nextElementSibling_last:
  assumes "distinct (map nodeId (as @ [z]))"
  shows "nextElementSibling (as @ [z]) (nodeId z) = None"
proof -
  have "nodeId z \<notin> nodeId ` set as" using assms by auto
  then have "nodeIndex (as @ z # []) (nodeId z) = Some (length as)"
    by (rule nodeIndex_decomp)
  then show ?thesis by (simp add: nextElementSibling_def)
qed

lemma nextElementSibling_decomp:
  assumes "distinct (map nodeId (as @ a # b # bs))"
  shows "nextElementSibling (as @ a # b # bs) (nodeId a) = Some (nodeId b)"
proof -
  have "nodeId a \<notin> nodeId ` set as" using assms by auto
  then have "nodeIndex (as @ a # b # bs) (nodeId a) = Some (length as)"
    by (rule nodeIndex_decomp)
  then show ?thesis by (simp add: nextElementSibling_def nth_append)
qed

lemma insertBefore_previous:
  assumes "distinct (map nodeId (as @ a # b # bs))"
  shows "insertBefore (as @ a # b # bs) (nodeId b) (Some (nodeId a)) = as @ b # a # bs"
proof -
  have f: "nodeId b \<notin> nodeId ` set as" "nodeId a \<notin> nodeId ` set as" "nodeId a \<noteq> nodeId b"
    "nodeId b \<notin> nodeId ` set bs"
    using assms by auto
  have fi: "find (\<lambda>it. nodeId it = nodeId b) (as @ a # b # bs) = Some b"
    using f by (simp add: find_fresh)
  have rm: "removeNode (as @ a # b # bs) (nodeId b) = as @ a # bs"
    using f by (simp add: removeNode_def filter_fresh)
  show ?thesis using f by (simp add: insertBefore_def fi rm takeWhile_fresh dropWhile_fresh)
qed

lemma insertBefore_next:
  assumes "distinct (map nodeId (as @ a # b # bs))"
  shows "insertBefore (as @ a # b # bs) (nodeId a) (nextElementSibling (as @ a # b # bs) (nodeId b)) = as @ b # a # bs"
proof -
  have f: "nodeId b \<notin> nodeId ` set as" "nodeId a \<notin> nodeId ` set as" "nodeId a \<noteq> nodeId b"
    "nodeId a \<notin> nodeId ` set bs" "nodeId b \<notin> nodeId ` set bs"
    using assms by auto
  have fi: "find (\<lambda>it. nodeId it = nodeId a) (as @ a # b # bs) = Some a"
    using f by (simp add: find_fresh)
  have rm: "removeNode (as @ a # b # bs) (nodeId a) = as @ b # bs"
    using f by (simp add: removeNode_def filter_fresh)
  show ?thesis
  proof (cases bs)
    case Nil
    have "nextElementSibling ((as @ [a]) @ [b]) (nodeId b) = None"
      using assms Nil by (intro nextElementSibling_last) simp
    then show ?thesis using Nil fi rm by (simp add: insertBefore_def)
  next
    case (Cons c cs)
    have "distinct (map nodeId ((as @ [a]) @ b # c # cs))" using assms Cons by simp
    from nextElementSibling_decomp[OF this]
    have n: "nextElementSibling (as @ a # b # bs) (nodeId b) = Some (nodeId c)" using Cons by simp
    have g: "nodeId c \<notin> nodeId ` set as" "nodeId c \<noteq> nodeId b" "nodeId c \<noteq> nodeId a"
      using assms Cons by auto
    show ?thesis using f g Cons fi rm n by (simp add: insertBefore_def takeWhile_fresh dropWhile_fresh)
  qed
qed

lemma moveSelectedItem_up:
  assumes "selectedList pg = Some sl" "distinct (map nodeId (children sl))"
    and "children sl = as @ a # b # bs"
  shows "moveSelectedItem (nodeId b) (- 1) pg =
           updateSelectedSummary (updateReorderControls (refreshOrderedInputs (setChildren (as @ b # a # bs) pg)))"
  using assms previousElementSibling_decomp[of as a b bs] insertBefore_previous[of as a b bs]
  by (simp add: moveSelectedItem_def)

lemma moveSelectedItem_down:
  assumes "selectedList pg = Some sl" "distinct (map nodeId (children sl))"
    and "children sl = as @ a # b # bs"
  shows "moveSelectedItem (nodeId a) 1 pg =
           updateSelectedSummary (updateReorderControls (refreshOrderedInputs (setChildren (as @ b # a # bs) pg)))"
  using assms nextElementSibling_decomp[of as a b bs] insertBefore_next[of as a b bs]
  by (simp add: moveSelectedItem_def)

text \<open>
  Claim C7. When item \<open>b\<close> directly follows item \<open>a\<close> in the selected list, moving \<open>b\<close> up
  and moving \<open>a\<close> down both exchange the two and leave every other item where it is: the
  same nodes, the same identifiers. Moving the first item up or the last item down returns
  the page as it was, hidden fields included.
\<close>

theorem moveSelectedItem_swaps_neighbours:
  assumes "selectedList pg = Some sl" and "distinct (map nodeId (children sl))"
  shows "(children sl = before @ a # b # after \<longrightarrow>
            panelOrder (moveSelectedItem (nodeId b) (- 1) pg)
              = map selectedVideoItem before @ selectedVideoItem b # selectedVideoItem a # map selectedVideoItem after
          \<and> map nodeId (panelItems (moveSelectedItem (nodeId b) (- 1) pg))
              = map nodeId before @ nodeId b # nodeId a # map nodeId after
          \<and> panelOrder (moveSelectedItem (nodeId a) 1 pg)
              = map selectedVideoItem before @ selectedVideoItem b # selectedVideoItem a # map selectedVideoItem after
          \<and> map nodeId (panelItems (moveSelectedItem (nodeId a) 1 pg))
              = map nodeId before @ nodeId b # nodeId a # map nodeId after)
       \<and> (children sl = first # rest \<longrightarrow> moveSelectedItem (nodeId first) (- 1) pg = pg)
       \<and> (children sl = front @ [final] \<longrightarrow> moveSelectedItem (nodeId final) 1 pg = pg)"
proof (intro conjI impI)
  assume c: "children sl = before @ a # b # after"
  show "panelOrder (moveSelectedItem (nodeId b) (- 1) pg)
              = map selectedVideoItem before @ selectedVideoItem b # selectedVideoItem a # map selectedVideoItem after"
    using assms(1) by (simp add: moveSelectedItem_up[OF assms c])
  show "map nodeId (panelItems (moveSelectedItem (nodeId b) (- 1) pg))
              = map nodeId before @ nodeId b # nodeId a # map nodeId after"
    using assms(1) by (simp add: moveSelectedItem_up[OF assms c])
  show "panelOrder (moveSelectedItem (nodeId a) 1 pg)
              = map selectedVideoItem before @ selectedVideoItem b # selectedVideoItem a # map selectedVideoItem after"
    using assms(1) by (simp add: moveSelectedItem_down[OF assms c])
  show "map nodeId (panelItems (moveSelectedItem (nodeId a) 1 pg))
              = map nodeId before @ nodeId b # nodeId a # map nodeId after"
    using assms(1) by (simp add: moveSelectedItem_down[OF assms c])
next
  assume "children sl = first # rest"
  then show "moveSelectedItem (nodeId first) (- 1) pg = pg"
    using assms(1) by (simp add: moveSelectedItem_def previousElementSibling_first)
next
  assume c: "children sl = front @ [final]"
  then have "nextElementSibling (children sl) (nodeId final) = None"
    using assms(2) nextElementSibling_last[of front final] by simp
  then show "moveSelectedItem (nodeId final) 1 pg = pg"
    using assms(1) by (simp add: moveSelectedItem_def)
qed

text \<open>On the page with items a, b, c: b moved up or a moved down gives b, a, c.\<close>

theorem moveSelectedItem_swaps_neighbours_witness:
  "selectedList loadedAbc = Some abcList
   \<and> distinct (map nodeId (children abcList))
   \<and> children abcList = [] @ abcItem 0 ''a'' True False # abcItem 1 ''b'' False False # [abcItem 2 ''c'' False True]
   \<and> children abcList = abcItem 0 ''a'' True False # [abcItem 1 ''b'' False False, abcItem 2 ''c'' False True]
   \<and> children abcList = [abcItem 0 ''a'' True False, abcItem 1 ''b'' False False] @ [abcItem 2 ''c'' False True]
   \<and> panelOrder (moveSelectedItem 1 (- 1) loadedAbc) = [''b'', ''a'', ''c'']
   \<and> panelOrder (moveSelectedItem 0 1 loadedAbc) = [''b'', ''a'', ''c'']
   \<and> moveSelectedItem 0 (- 1) loadedAbc = loadedAbc
   \<and> moveSelectedItem 2 1 loadedAbc = loadedAbc"
proof -
  have c: "children abcList = [abcItem 0 ''a'' True False, abcItem 1 ''b'' False False, abcItem 2 ''c'' False True]"
    by (simp add: abcList_def)
  show ?thesis
    using loadedAbc_list abcList_distinct(1)
      moveSelectedItem_swaps_neighbours[OF loadedAbc_list abcList_distinct(1),
        where before = "[]" and a = "abcItem 0 ''a'' True False" and b = "abcItem 1 ''b'' False False"
          and after = "[abcItem 2 ''c'' False True]" and first = "abcItem 0 ''a'' True False"
          and rest = "[abcItem 1 ''b'' False False, abcItem 2 ''c'' False True]"
          and front = "[abcItem 0 ''a'' True False, abcItem 1 ''b'' False False]"
          and final = "abcItem 2 ''c'' False True"]
    by (simp add: c abcItem_def)
qed

section \<open>Toggling one entry\<close>

lemma refreshAll_frame [simp]:
  "fileEntries (refreshAll pg) = fileEntries pg"
  "selectedEntryMap (refreshAll pg) = selectedEntryMap pg"
  "nextNode (refreshAll pg) = nextNode pg"
  "searchInput (refreshAll pg) = searchInput pg"
  "inputListener (refreshAll pg) = inputListener pg"
  "clearButton (refreshAll pg) = clearButton pg"
  "clearListener (refreshAll pg) = clearListener pg"
  "resultsWrapper (refreshAll pg) = resultsWrapper pg"
  "resultsList (refreshAll pg) = resultsList pg"
  "noResultsAlert (refreshAll pg) = noResultsAlert pg"
  "previewModal (refreshAll pg) = previewModal pg"
  "bodyOverflowHidden (refreshAll pg) = bodyOverflowHidden pg"
  "activePreviewEntry (refreshAll pg) = activePreviewEntry pg"
  "previewListeners (refreshAll pg) = previewListeners pg"
  "playlistEditor (refreshAll pg) = playlistEditor pg"
  "panelItems (refreshAll pg) = setReorderControls (panelItems pg)"
  "panelOrder (refreshAll pg) = panelOrder pg"
  "panelNodes (refreshAll pg) = panelNodes pg"
  "selectedList (refreshAll pg) = None \<longleftrightarrow> selectedList pg = None"
  by (simp_all add: refreshAll_def panelNodes_def)

lemma refresh_order:
  "updateSelectedSummary (updateReorderControls (refreshOrderedInputs pg)) = refreshAll pg"
  by (cases "selectedList pg"; cases "orderedInputsContainer pg")
     (simp_all add: refreshAll_def updateSelectedSummary_def updateReorderControls_def refreshOrderedInputs_def Let_def)

lemma setReorderControls_nth:
  "i < length xs \<Longrightarrow> setReorderControls xs ! i = (xs ! i)\<lparr> moveUpDisabled := (i = 0), moveDownDisabled := (Suc i = length xs) \<rparr>"
  by (simp add: setReorderControls_def nth_enumerate_eq)

lemma setReorderControls_idem [simp]:
  "setReorderControls (setReorderControls xs) = setReorderControls xs"
  by (rule nth_equalityI) (simp_all add: setReorderControls_nth)

lemma serialize_reflag:
  "foldl (\<lambda>inputs item. if selectedVideoItem item = [] then inputs else inputs @ [orderedInput (selectedVideoItem item)]) acc xs
   = acc @ map orderedInput (filter (\<lambda>p. p \<noteq> []) (map selectedVideoItem xs))"
  by (induction xs arbitrary: acc) auto

lemma orderedInputs_refreshAll:
  "orderedInputsContainer (refreshAll pg) =
     (if orderedInputsContainer pg = None \<or> selectedList pg = None then orderedInputsContainer pg
      else Some (map orderedInput (filter (\<lambda>p. p \<noteq> []) (panelOrder pg))))"
  by (auto simp: refreshAll_def refreshOrderedInputs_def serialize_reflag panelOrder_def panelItems_def
        updateSelectedSummary_def Let_def split: option.splits)

lemma refreshAll_idem [simp]: "refreshAll (refreshAll pg) = refreshAll pg"
  by (cases "selectedList pg"; cases "orderedInputsContainer pg")
     (simp_all add: refreshAll_def updateSelectedSummary_def updateReorderControls_def refreshOrderedInputs_def
        Let_def serialize_reflag option.map_comp comp_def)

lemma panel_ok_refreshAll [simp]: "panel_ok (refreshAll pg) = panel_ok pg"
  by (simp add: panel_ok_def)


lemma update_absent: "k \<notin> fst ` set al \<Longrightarrow> AList.update k v al = al @ [(k, v)]"
  by (induction al) auto

lemma panel_keys_fst:
  assumes "panel_ok pg"
  shows "fst ` set (selectedEntryMap pg) = set (panelOrder pg)"
proof -
  have "set (selectedEntryMap pg) = set (map (\<lambda>it. (selectedVideoItem it, nodeId it)) (panelItems pg))"
    using assms unfolding panel_ok_def by blast
  then show ?thesis by (simp add: panelOrder_def image_image)
qed

lemma map_of_panel_None:
  "panel_ok pg \<Longrightarrow> map_of (selectedEntryMap pg) p = None \<longleftrightarrow> p \<notin> set (panelOrder pg)"
  by (simp add: map_of_eq_None_iff panel_keys_fst)

lemma map_of_panel_Some:
  assumes "panel_ok pg"
  shows "map_of (selectedEntryMap pg) p = Some n \<longleftrightarrow>
     (\<exists>it \<in> set (panelItems pg). selectedVideoItem it = p \<and> nodeId it = n)"
proof -
  have d: "distinct (map fst (selectedEntryMap pg))"
    and e: "set (selectedEntryMap pg) = set (map (\<lambda>it. (selectedVideoItem it, nodeId it)) (panelItems pg))"
    using assms unfolding panel_ok_def by blast+
  have "map_of (selectedEntryMap pg) p = Some n \<longleftrightarrow> (p, n) \<in> set (selectedEntryMap pg)"
    using d by simp
  also have "\<dots> \<longleftrightarrow> (p, n) \<in> (\<lambda>it. (selectedVideoItem it, nodeId it)) ` set (panelItems pg)"
    by (simp add: e)
  also have "\<dots> \<longleftrightarrow> (\<exists>it \<in> set (panelItems pg). selectedVideoItem it = p \<and> nodeId it = n)"
    by (auto simp: image_iff)
  finally show ?thesis .
qed

lemma syncSelectedEntry_skip:
  "selectedList pg = None \<Longrightarrow> syncSelectedEntry i pg = pg"
  "path (fileEntries pg ! i) = [] \<Longrightarrow> syncSelectedEntry i pg = pg"
  "checkbox (fileEntries pg ! i) = None \<Longrightarrow> syncSelectedEntry i pg = pg"
  unfolding syncSelectedEntry_def Let_def by (simp_all split: option.split)

lemma syncSelectedEntry_unfold:
  assumes "selectedList pg = Some sl" "path (fileEntries pg ! i) \<noteq> []" "checkbox (fileEntries pg ! i) = Some c"
  shows "syncSelectedEntry i pg =
    refreshAll (if c then
                          (case map_of (selectedEntryMap pg) (path (fileEntries pg ! i)) of
                             None \<Rightarrow>
                               setChildren (appendChild (children sl) (buildSelectedListItem (nextNode pg) i (fileEntries pg ! i)))
                                 (pg\<lparr> nextNode := Suc (nextNode pg),
                                     selectedEntryMap := AList.update (path (fileEntries pg ! i)) (nodeId (buildSelectedListItem (nextNode pg) i (fileEntries pg ! i))) (selectedEntryMap pg) \<rparr>)
                           | Some _ \<Rightarrow> pg)
                        else
                          (case map_of (selectedEntryMap pg) (path (fileEntries pg ! i)) of
                             None \<Rightarrow> pg
                           | Some n \<Rightarrow>
                               (setChildren (removeNode (children sl) n) pg)
                                 \<lparr> selectedEntryMap := AList.delete (path (fileEntries pg ! i)) (selectedEntryMap pg) \<rparr>))"
  unfolding syncSelectedEntry_def Let_def refreshAll_def using assms by simp

lemma syncSelectedEntry_same:
  assumes "panel_ok pg" "selectedList pg = Some sl"
    and "path (fileEntries pg ! i) \<noteq> []" "checkbox (fileEntries pg ! i) = Some c"
    and "c \<longleftrightarrow> path (fileEntries pg ! i) \<in> set (panelOrder pg)"
  shows "syncSelectedEntry i pg = refreshAll pg"
proof (cases c)
  case True
  then obtain n where "map_of (selectedEntryMap pg) (path (fileEntries pg ! i)) = Some n"
    using assms map_of_panel_None[OF assms(1), of "path (fileEntries pg ! i)"] by auto
  then show ?thesis using True unfolding syncSelectedEntry_unfold[OF assms(2,3,4)] by simp
next
  case False
  then have "map_of (selectedEntryMap pg) (path (fileEntries pg ! i)) = None"
    using assms map_of_panel_None[OF assms(1), of "path (fileEntries pg ! i)"] by auto
  then show ?thesis using False unfolding syncSelectedEntry_unfold[OF assms(2,3,4)] by simp
qed

lemma syncSelectedEntry_add:
  assumes "panel_ok pg" "selectedList pg = Some sl"
    and "path (fileEntries pg ! i) \<noteq> []" "checkbox (fileEntries pg ! i) = Some True"
    and "path (fileEntries pg ! i) \<notin> set (panelOrder pg)"
  shows "syncSelectedEntry i pg =
           refreshAll (setChildren (children sl @ [buildSelectedListItem (nextNode pg) i (fileEntries pg ! i)])
             (pg\<lparr> nextNode := Suc (nextNode pg),
                 selectedEntryMap := selectedEntryMap pg @ [(path (fileEntries pg ! i), nextNode pg)] \<rparr>))"
proof -
  have n: "map_of (selectedEntryMap pg) (path (fileEntries pg ! i)) = None"
    using assms map_of_panel_None[OF assms(1)] by simp
  have u: "AList.update (path (fileEntries pg ! i)) (nextNode pg) (selectedEntryMap pg)
           = selectedEntryMap pg @ [(path (fileEntries pg ! i), nextNode pg)]"
    using assms(5) panel_keys_fst[OF assms(1)] by (intro update_absent) simp
  have "nextNode pg \<notin> nodeId ` set (children sl)"
    using assms(1,2) by (auto simp: panel_ok_def panelNodes_def panelItems_def)
  then have r: "removeNode (children sl) (nextNode pg) = children sl"
    by (simp add: removeNode_def filter_fresh)
  have b: "nodeId (buildSelectedListItem (nextNode pg) i (fileEntries pg ! i)) = nextNode pg"
    by (simp add: buildSelectedListItem_def)
  show ?thesis unfolding syncSelectedEntry_unfold[OF assms(2,3,4)]
    by (simp add: n appendChild_def b u r)
qed

lemma syncSelectedEntry_remove:
  assumes "panel_ok pg" "selectedList pg = Some sl"
    and "path (fileEntries pg ! i) \<noteq> []" "checkbox (fileEntries pg ! i) = Some False"
    and "path (fileEntries pg ! i) \<in> set (panelOrder pg)"
  shows "syncSelectedEntry i pg =
           refreshAll ((setChildren (filter (\<lambda>it. selectedVideoItem it \<noteq> path (fileEntries pg ! i)) (children sl)) pg)
             \<lparr> selectedEntryMap := filter (\<lambda>(q, n). q \<noteq> path (fileEntries pg ! i)) (selectedEntryMap pg) \<rparr>)"
proof -
  obtain n where n: "map_of (selectedEntryMap pg) (path (fileEntries pg ! i)) = Some n"
    using assms map_of_panel_None[OF assms(1), of "path (fileEntries pg ! i)"] by auto
  then obtain it where it: "it \<in> set (children sl)" "selectedVideoItem it = path (fileEntries pg ! i)" "nodeId it = n"
    using map_of_panel_Some[OF assms(1)] assms(2) by (auto simp: panelItems_def)
  have d: "distinct (map nodeId (children sl))" "distinct (map selectedVideoItem (children sl))"
    using assms(1,2) by (auto simp: panel_ok_def panelNodes_def panelOrder_def panelItems_def)
  have r: "removeNode (children sl) n = filter (\<lambda>x. selectedVideoItem x \<noteq> path (fileEntries pg ! i)) (children sl)"
    using removeNode_by_path[OF d it(1)] it by simp
  have dl: "AList.delete (path (fileEntries pg ! i)) (selectedEntryMap pg)
            = filter (\<lambda>(q, n). q \<noteq> path (fileEntries pg ! i)) (selectedEntryMap pg)"
    by (auto simp: AList.delete_eq intro!: filter_cong)
  show ?thesis unfolding syncSelectedEntry_unfold[OF assms(2,3,4)]
    by (simp add: n r dl)
qed


lemma panel_views_other_fields [simp]:
  "panelItems (pg\<lparr> selectedEntryMap := m \<rparr>) = panelItems pg"
  "panelItems (pg\<lparr> nextNode := k \<rparr>) = panelItems pg"
  "panelItems (pg\<lparr> fileEntries := es \<rparr>) = panelItems pg"
  "panelOrder (pg\<lparr> selectedEntryMap := m \<rparr>) = panelOrder pg"
  "panelOrder (pg\<lparr> nextNode := k \<rparr>) = panelOrder pg"
  "panelOrder (pg\<lparr> fileEntries := es \<rparr>) = panelOrder pg"
  "panelNodes (pg\<lparr> selectedEntryMap := m \<rparr>) = panelNodes pg"
  "panelNodes (pg\<lparr> nextNode := k \<rparr>) = panelNodes pg"
  "panelNodes (pg\<lparr> fileEntries := es \<rparr>) = panelNodes pg"
  by (simp_all add: panelItems_def panelOrder_def panelNodes_def)

lemma panelNodes_setChildren [simp]:
  "selectedList pg \<noteq> None \<Longrightarrow> panelNodes (setChildren xs pg) = map nodeId xs"
  by (simp add: panelNodes_def)

lemma panel_ok_add:
  assumes "panel_ok pg" "selectedList pg = Some sl" "p \<notin> set (panelOrder pg)"
    and "nodeId item = nextNode pg" "selectedVideoItem item = p"
  shows "panel_ok (setChildren (children sl @ [item])
           (pg\<lparr> nextNode := Suc (nextNode pg), selectedEntryMap := selectedEntryMap pg @ [(p, nextNode pg)] \<rparr>))"
proof -
  have xs: "panelItems pg = children sl" using assms(2) by (simp add: panelItems_def)
  have k: "fst ` set (selectedEntryMap pg) = set (panelOrder pg)" by (rule panel_keys_fst[OF assms(1)])
  have ok: "distinct (map nodeId (children sl))" "distinct (map selectedVideoItem (children sl))"
    "\<forall>n \<in> set (map nodeId (children sl)). n < nextNode pg"
    "distinct (map fst (selectedEntryMap pg))"
    "set (selectedEntryMap pg) = set (map (\<lambda>it. (selectedVideoItem it, nodeId it)) (children sl))"
    using assms(1) unfolding panel_ok_def panelNodes_def panelOrder_def xs by blast+
  have fresh: "nextNode pg \<notin> set (map nodeId (children sl))" using ok(3) by auto
  have pn: "p \<notin> set (map selectedVideoItem (children sl))" using assms(3) by (simp add: panelOrder_def xs)
  have pk: "p \<notin> fst ` set (selectedEntryMap pg)" using k assms(3) by simp
  show ?thesis
    unfolding panel_ok_def using assms(2,4,5) ok fresh pn pk
    by (simp add: panelOrder_def less_Suc_eq)
qed

lemma panel_ok_remove:
  assumes "panel_ok pg" "selectedList pg = Some sl"
  shows "panel_ok ((setChildren (filter (\<lambda>it. selectedVideoItem it \<noteq> p) (children sl)) pg)
           \<lparr> selectedEntryMap := filter (\<lambda>(q, n). q \<noteq> p) (selectedEntryMap pg) \<rparr>)"
proof -
  have xs: "panelItems pg = children sl" using assms(2) by (simp add: panelItems_def)
  have ok: "distinct (map nodeId (children sl))" "distinct (map selectedVideoItem (children sl))"
    "\<forall>n \<in> set (map nodeId (children sl)). n < nextNode pg"
    "distinct (map fst (selectedEntryMap pg))"
    "set (selectedEntryMap pg) = set (map (\<lambda>it. (selectedVideoItem it, nodeId it)) (children sl))"
    using assms(1) unfolding panel_ok_def panelNodes_def panelOrder_def xs by blast+
  have s: "set (filter (\<lambda>(q, n). q \<noteq> p) (selectedEntryMap pg))
           = set (map (\<lambda>it. (selectedVideoItem it, nodeId it)) (filter (\<lambda>it. selectedVideoItem it \<noteq> p) (children sl)))"
    using ok(5) by auto
  show ?thesis
    unfolding panel_ok_def using assms(2) ok(1-4) s
    by (simp add: panelOrder_def distinct_map_filter)
qed

lemma removeAll_map: "removeAll p (map f xs) = map f (filter (\<lambda>x. f x \<noteq> p) xs)"
  by (induction xs) auto

lemma count_list_distinct: "distinct xs \<Longrightarrow> x \<in> set xs \<Longrightarrow> count_list xs x = Suc 0"
  by (induction xs) auto

lemma panel_ok_syncSelectedEntry:
  assumes "panel_ok pg"
  shows "panel_ok (syncSelectedEntry i pg)"
proof (cases "selectedList pg = None \<or> path (fileEntries pg ! i) = [] \<or> checkbox (fileEntries pg ! i) = None")
  case True
  then show ?thesis using assms syncSelectedEntry_skip[of pg i] by auto
next
  case False
  then obtain sl c where h: "selectedList pg = Some sl" "path (fileEntries pg ! i) \<noteq> []"
    "checkbox (fileEntries pg ! i) = Some c" by auto
  show ?thesis
  proof (cases "c \<longleftrightarrow> path (fileEntries pg ! i) \<in> set (panelOrder pg)")
    case True
    then show ?thesis using syncSelectedEntry_same[OF assms h] assms by simp
  next
    case False
    show ?thesis
    proof (cases c)
      case True
      with False h have a: "checkbox (fileEntries pg ! i) = Some True" "path (fileEntries pg ! i) \<notin> set (panelOrder pg)"
        by auto
      show ?thesis
        unfolding syncSelectedEntry_add[OF assms h(1,2) a] panel_ok_refreshAll
        by (rule panel_ok_add[OF assms h(1) a(2)]) (simp_all add: buildSelectedListItem_def)
    next
      case c: False
      with False h have a: "checkbox (fileEntries pg ! i) = Some False" "path (fileEntries pg ! i) \<in> set (panelOrder pg)"
        by auto
      show ?thesis
        unfolding syncSelectedEntry_remove[OF assms h(1,2) a] panel_ok_refreshAll
        by (rule panel_ok_remove[OF assms h(1)])
    qed
  qed
qed


lemma syncSelectedEntry_fileEntries [simp]: "fileEntries (syncSelectedEntry i pg) = fileEntries pg"
proof (cases "selectedList pg = None \<or> path (fileEntries pg ! i) = [] \<or> checkbox (fileEntries pg ! i) = None")
  case True
  then show ?thesis using syncSelectedEntry_skip[of pg i] by auto
next
  case False
  then obtain sl c where h: "selectedList pg = Some sl" "path (fileEntries pg ! i) \<noteq> []"
    "checkbox (fileEntries pg ! i) = Some c" by auto
  show ?thesis unfolding syncSelectedEntry_unfold[OF h] by (simp split: option.split)
qed

lemma syncSelectedEntry_selectedList [simp]:
  "selectedList (syncSelectedEntry i pg) = None \<longleftrightarrow> selectedList pg = None"
proof (cases "selectedList pg = None \<or> path (fileEntries pg ! i) = [] \<or> checkbox (fileEntries pg ! i) = None")
  case True
  then show ?thesis using syncSelectedEntry_skip[of pg i] by auto
next
  case False
  then obtain sl c where h: "selectedList pg = Some sl" "path (fileEntries pg ! i) \<noteq> []"
    "checkbox (fileEntries pg ! i) = Some c" by auto
  show ?thesis unfolding syncSelectedEntry_unfold[OF h] using h(1) by (simp add: setChildren_def split: option.split)
qed

text \<open>
  What \<^verbatim>\<open>syncSelectedEntry\<close> does to the sequence of identifiers, for an entry with a
  checkbox and a non-empty path on a page with a selected list.
\<close>

lemma syncSelectedEntry_order:
  assumes "panel_ok pg" "selectedList pg = Some sl"
    and "path (fileEntries pg ! i) = p" "p \<noteq> []" "checkbox (fileEntries pg ! i) = Some c"
  shows "panelOrder (syncSelectedEntry i pg) =
           (if c then (if p \<in> set (panelOrder pg) then panelOrder pg else panelOrder pg @ [p])
            else removeAll p (panelOrder pg))"
proof -
  have h: "path (fileEntries pg ! i) \<noteq> []" using assms by simp
  have xs: "panelOrder pg = map selectedVideoItem (children sl)"
    using assms(2) by (simp add: panelOrder_def panelItems_def)
  show ?thesis
  proof (cases "c \<longleftrightarrow> p \<in> set (panelOrder pg)")
    case True
    then have "c \<longleftrightarrow> path (fileEntries pg ! i) \<in> set (panelOrder pg)" using assms(3) by simp
    from syncSelectedEntry_same[OF assms(1,2) h assms(5) this] True
    show ?thesis by auto
  next
    case False
    show ?thesis
    proof (cases c)
      case True
      with False assms have a: "checkbox (fileEntries pg ! i) = Some True" "path (fileEntries pg ! i) \<notin> set (panelOrder pg)"
        by auto
      show ?thesis
        unfolding syncSelectedEntry_add[OF assms(1,2) h a]
        using True False assms(2,3) by (simp add: xs buildSelectedListItem_def)
    next
      case c: False
      with False assms have a: "checkbox (fileEntries pg ! i) = Some False" "path (fileEntries pg ! i) \<in> set (panelOrder pg)"
        by auto
      show ?thesis
        unfolding syncSelectedEntry_remove[OF assms(1,2) h a]
        using c assms(2,3) by (simp add: xs removeAll_map)
    qed
  qed
qed

text \<open>
  Claim C6. For a catalog entry with a checkbox and a non-empty identifier \<open>p\<close>, on a page
  whose Map and selected list agree: a toggle that is on while \<open>p\<close> is absent appends \<open>p\<close>
  after the identifiers already selected and creates one new item node; a toggle that is
  off while \<open>p\<close> is present removes \<open>p\<close> and its item; in the two other cases sequence,
  nodes and Map stay as they are. Running the function twice is the same as running it
  once, and a toggle that is on leaves \<open>p\<close> in the sequence exactly once.
\<close>

theorem syncSelectedEntry_toggle:
  assumes "panel_ok pg" and "selectedList pg = Some sl" and "i < length (fileEntries pg)"
    and "path (fileEntries pg ! i) = p" and "p \<noteq> []" and "checkbox (fileEntries pg ! i) = Some c"
  shows "(c \<and> p \<notin> set (panelOrder pg) \<longrightarrow>
            panelOrder (syncSelectedEntry i pg) = panelOrder pg @ [p] \<and>
            panelNodes (syncSelectedEntry i pg) = panelNodes pg @ [nextNode pg] \<and>
            map_of (selectedEntryMap (syncSelectedEntry i pg)) p = Some (nextNode pg))
       \<and> (\<not> c \<and> p \<in> set (panelOrder pg) \<longrightarrow>
            panelOrder (syncSelectedEntry i pg) = removeAll p (panelOrder pg) \<and>
            panelNodes (syncSelectedEntry i pg) = map nodeId (filter (\<lambda>it. selectedVideoItem it \<noteq> p) (panelItems pg)) \<and>
            map_of (selectedEntryMap (syncSelectedEntry i pg)) p = None)
       \<and> ((c \<longleftrightarrow> p \<in> set (panelOrder pg)) \<longrightarrow>
            panelOrder (syncSelectedEntry i pg) = panelOrder pg \<and>
            panelNodes (syncSelectedEntry i pg) = panelNodes pg \<and>
            selectedEntryMap (syncSelectedEntry i pg) = selectedEntryMap pg)
       \<and> syncSelectedEntry i (syncSelectedEntry i pg) = syncSelectedEntry i pg
       \<and> (c \<longrightarrow> count_list (panelOrder (syncSelectedEntry i (syncSelectedEntry i pg))) p = 1)
       \<and> panel_ok (syncSelectedEntry i pg)"
proof -
  let ?pg1 = "syncSelectedEntry i pg"
  have h: "path (fileEntries pg ! i) \<noteq> []" using assms by simp
  have xs: "panelItems pg = children sl" using assms(2) by (simp add: panelItems_def)
  have ok1: "panel_ok ?pg1" by (rule panel_ok_syncSelectedEntry[OF assms(1)])
  have ord: "panelOrder ?pg1 =
           (if c then (if p \<in> set (panelOrder pg) then panelOrder pg else panelOrder pg @ [p])
            else removeAll p (panelOrder pg))"
    by (rule syncSelectedEntry_order[OF assms(1,2,4,5,6)])
  have A: "c \<and> p \<notin> set (panelOrder pg) \<longrightarrow>
            panelOrder ?pg1 = panelOrder pg @ [p] \<and>
            panelNodes ?pg1 = panelNodes pg @ [nextNode pg] \<and>
            map_of (selectedEntryMap ?pg1) p = Some (nextNode pg)"
  proof
    assume a: "c \<and> p \<notin> set (panelOrder pg)"
    then have a': "checkbox (fileEntries pg ! i) = Some True" "path (fileEntries pg ! i) \<notin> set (panelOrder pg)"
      using assms by auto
    have pk: "p \<notin> fst ` set (selectedEntryMap pg)" using a panel_keys_fst[OF assms(1)] by simp
    then have "map_of (selectedEntryMap pg) p = None" by (simp add: map_of_eq_None_iff)
    then show "panelOrder ?pg1 = panelOrder pg @ [p] \<and>
            panelNodes ?pg1 = panelNodes pg @ [nextNode pg] \<and>
            map_of (selectedEntryMap ?pg1) p = Some (nextNode pg)"
      unfolding syncSelectedEntry_add[OF assms(1,2) h a']
      using assms(2,4) by (simp add: panelOrder_def panelNodes_def xs buildSelectedListItem_def map_add_def)
  qed
  have B: "\<not> c \<and> p \<in> set (panelOrder pg) \<longrightarrow>
            panelOrder ?pg1 = removeAll p (panelOrder pg) \<and>
            panelNodes ?pg1 = map nodeId (filter (\<lambda>it. selectedVideoItem it \<noteq> p) (panelItems pg)) \<and>
            map_of (selectedEntryMap ?pg1) p = None"
  proof
    assume a: "\<not> c \<and> p \<in> set (panelOrder pg)"
    then have a': "checkbox (fileEntries pg ! i) = Some False" "path (fileEntries pg ! i) \<in> set (panelOrder pg)"
      using assms by auto
    have "p \<notin> fst ` set (filter (\<lambda>(q, n). q \<noteq> p) (selectedEntryMap pg))" by auto
    then have m: "map_of (filter (\<lambda>(q, n). q \<noteq> p) (selectedEntryMap pg)) p = None"
      by (simp add: map_of_eq_None_iff)
    show "panelOrder ?pg1 = removeAll p (panelOrder pg) \<and>
            panelNodes ?pg1 = map nodeId (filter (\<lambda>it. selectedVideoItem it \<noteq> p) (panelItems pg)) \<and>
            map_of (selectedEntryMap ?pg1) p = None"
      using ord a m assms(2,4) unfolding syncSelectedEntry_remove[OF assms(1,2) h a']
      by (simp add: xs)
  qed
  have C: "(c \<longleftrightarrow> p \<in> set (panelOrder pg)) \<longrightarrow>
            panelOrder ?pg1 = panelOrder pg \<and> panelNodes ?pg1 = panelNodes pg \<and>
            selectedEntryMap ?pg1 = selectedEntryMap pg"
  proof
    assume a: "c \<longleftrightarrow> p \<in> set (panelOrder pg)"
    then have "c \<longleftrightarrow> path (fileEntries pg ! i) \<in> set (panelOrder pg)" using assms(4) by simp
    from syncSelectedEntry_same[OF assms(1,2) h assms(6) this]
    show "panelOrder ?pg1 = panelOrder pg \<and> panelNodes ?pg1 = panelNodes pg \<and>
            selectedEntryMap ?pg1 = selectedEntryMap pg" by simp
  qed
  have stable: "refreshAll ?pg1 = ?pg1"
  proof (cases "c \<longleftrightarrow> path (fileEntries pg ! i) \<in> set (panelOrder pg)")
    case True
    show ?thesis unfolding syncSelectedEntry_same[OF assms(1,2) h assms(6) True] by simp
  next
    case False
    show ?thesis
    proof (cases c)
      case True
      with False have a': "checkbox (fileEntries pg ! i) = Some True" "path (fileEntries pg ! i) \<notin> set (panelOrder pg)"
        using assms by auto
      show ?thesis unfolding syncSelectedEntry_add[OF assms(1,2) h a'] by simp
    next
      case c: False
      with False have a': "checkbox (fileEntries pg ! i) = Some False" "path (fileEntries pg ! i) \<in> set (panelOrder pg)"
        using assms by auto
      show ?thesis unfolding syncSelectedEntry_remove[OF assms(1,2) h a'] by simp
    qed
  qed
  obtain sl1 where sl1: "selectedList ?pg1 = Some sl1"
    using assms(2) syncSelectedEntry_selectedList[of i pg] by (cases "selectedList ?pg1") auto
  have m1: "c \<longleftrightarrow> path (fileEntries ?pg1 ! i) \<in> set (panelOrder ?pg1)"
    using ord assms(4) by auto
  have D: "syncSelectedEntry i ?pg1 = ?pg1"
    using syncSelectedEntry_same[OF ok1 sl1 _ _ m1] h assms(6) stable by simp
  have dist: "distinct (panelOrder ?pg1)" using ok1 unfolding panel_ok_def by blast
  have E: "c \<longrightarrow> count_list (panelOrder (syncSelectedEntry i ?pg1)) p = 1"
  proof
    assume c
    then have "p \<in> set (panelOrder ?pg1)" using ord by auto
    then show "count_list (panelOrder (syncSelectedEntry i ?pg1)) p = 1"
      unfolding D using dist by (simp add: count_list_distinct)
  qed
  show ?thesis using A B C D E ok1 by blast
qed


text \<open>
  On the page with items a, b, c: with the checkbox of b on, nothing changes; once it is
  switched off, b leaves the sequence; switched on again, b comes back at the end.
\<close>

theorem syncSelectedEntry_toggle_witness:
  "panel_ok loadedAbc \<and> selectedList loadedAbc = Some abcList \<and> 1 < length (fileEntries loadedAbc)
   \<and> path (fileEntries loadedAbc ! 1) = ''b'' \<and> checkbox (fileEntries loadedAbc ! 1) = Some True
   \<and> panelOrder loadedAbc = [''a'', ''b'', ''c'']
   \<and> panelOrder (syncSelectedEntry 1 loadedAbc) = [''a'', ''b'', ''c'']
   \<and> syncSelectedEntry 1 (syncSelectedEntry 1 loadedAbc) = syncSelectedEntry 1 loadedAbc
   \<and> count_list (panelOrder (syncSelectedEntry 1 (syncSelectedEntry 1 loadedAbc))) ''b'' = 1
   \<and> panel_ok (setChecked 1 False loadedAbc)
   \<and> checkbox (fileEntries (setChecked 1 False loadedAbc) ! 1) = Some False
   \<and> panelOrder (syncSelectedEntry 1 (setChecked 1 False loadedAbc)) = [''a'', ''c'']
   \<and> panel_ok (setChecked 1 True (syncSelectedEntry 1 (setChecked 1 False loadedAbc)))
   \<and> checkbox (fileEntries (setChecked 1 True (syncSelectedEntry 1 (setChecked 1 False loadedAbc))) ! 1) = Some True
   \<and> panelOrder (setChecked 1 True (syncSelectedEntry 1 (setChecked 1 False loadedAbc))) = [''a'', ''c'']
   \<and> panelOrder (syncSelectedEntry 1 (setChecked 1 True (syncSelectedEntry 1 (setChecked 1 False loadedAbc))))
       = [''a'', ''c'', ''b'']"
proof -
  let ?off = "setChecked 1 False loadedAbc"
  let ?on = "setChecked 1 True (syncSelectedEntry 1 (setChecked 1 False loadedAbc))"
  have k0: "panel_ok loadedAbc" "1 < length (fileEntries loadedAbc)"
    "path (fileEntries loadedAbc ! 1) = ''b''" "''b'' \<noteq> []" "checkbox (fileEntries loadedAbc ! 1) = Some True"
    by code_simp+
  have k1: "panel_ok ?off" "selectedList ?off = Some abcList" "1 < length (fileEntries ?off)"
    "path (fileEntries ?off ! 1) = ''b''" "checkbox (fileEntries ?off ! 1) = Some False"
    "panelOrder ?off = [''a'', ''b'', ''c'']"
    by code_simp+
  have k2: "panel_ok ?on" "selectedList ?on \<noteq> None" "1 < length (fileEntries ?on)"
    "path (fileEntries ?on ! 1) = ''b''" "checkbox (fileEntries ?on ! 1) = Some True"
    "panelOrder ?on = [''a'', ''c'']"
    by code_simp+
  obtain sl2 where sl2: "selectedList ?on = Some sl2" using k2(2) by auto
  note t0 = syncSelectedEntry_toggle[OF k0(1) loadedAbc_list k0(2,3,4,5)]
  note t1 = syncSelectedEntry_toggle[OF k1(1,2,3,4) k0(4) k1(5)]
  note t2 = syncSelectedEntry_toggle[OF k2(1) sl2 k2(3,4) k0(4) k2(5)]
  show ?thesis
    using k0 k1 k2 loadedAbc_list t0 t1 t2
    by (simp add: loadedAbc_order)
qed

section \<open>Searching\<close>







lemma query_decomposes:
  "\<exists>l q r. v = l @ q @ r \<and> blankOnly l \<and> blankOnly r \<and> (q = [] \<or> (\<not> blank (hd q) \<and> \<not> blank (last q)))"
proof -
  let ?l = "takeWhile blank v"
  let ?m = "dropWhile blank v"
  let ?r = "rev (takeWhile blank (rev ?m))"
  let ?q = "rev (dropWhile blank (rev ?m))"
  have 1: "v = ?l @ ?q @ ?r"
  proof -
    have "rev ?m = takeWhile blank (rev ?m) @ dropWhile blank (rev ?m)" by simp
    then have "?m = ?q @ ?r" by (metis rev_append rev_rev_ident)
    then show ?thesis by (metis takeWhile_dropWhile_id)
  qed
  have 2: "blankOnly ?l" "blankOnly ?r"
    by (auto simp: blankOnly_def list_all_iff dest: set_takeWhileD)
  have 3: "?q = [] \<or> (\<not> blank (hd ?q) \<and> \<not> blank (last ?q))"
  proof (cases "?q = []")
    case True then show ?thesis by simp
  next
    case False
    then have n: "dropWhile blank (rev ?m) \<noteq> []" by simp
    have a: "\<not> blank (last ?q)"
      using n hd_dropWhile[of blank "rev ?m"] by (simp add: last_rev)
    have "?m \<noteq> []"
    proof
      assume "?m = []"
      then have "dropWhile blank (rev ?m) = []" by (simp only: rev.simps dropWhile.simps)
      with n show False by simp
    qed
    then have b: "\<not> blank (hd ?m)" using hd_dropWhile[of blank v] by simp
    have "?m = ?q @ ?r" by (metis rev_append rev_rev_ident takeWhile_dropWhile_id)
    then have "hd ?m = hd ?q" using False by (metis hd_append2)
    then show ?thesis using a b by simp
  qed
  show ?thesis using 1 2 3 by blast
qed








section \<open>What each function leaves alone\<close>

lemma clearResults_frame [simp]:
  "playlistEditor (clearResults pg) = playlistEditor pg"
  "fileEntries (clearResults pg) = fileEntries pg"
  "selectedList (clearResults pg) = selectedList pg"
  "selectedEmptyState (clearResults pg) = selectedEmptyState pg"
  "selectedCount (clearResults pg) = selectedCount pg"
  "selectedEntryMap (clearResults pg) = selectedEntryMap pg"
  "orderedInputsContainer (clearResults pg) = orderedInputsContainer pg"
  "nextNode (clearResults pg) = nextNode pg"
  "searchInput (clearResults pg) = searchInput pg"
  "inputListener (clearResults pg) = inputListener pg"
  "clearButton (clearResults pg) = clearButton pg"
  "clearListener (clearResults pg) = clearListener pg"
  "previewModal (clearResults pg) = previewModal pg"
  "bodyOverflowHidden (clearResults pg) = bodyOverflowHidden pg"
  "activePreviewEntry (clearResults pg) = activePreviewEntry pg"
  "previewListeners (clearResults pg) = previewListeners pg"
  by (simp_all add: clearResults_def)

lemma updateResults_frame [simp]:
  "playlistEditor (updateResults pg) = playlistEditor pg"
  "fileEntries (updateResults pg) = fileEntries pg"
  "selectedList (updateResults pg) = selectedList pg"
  "selectedEmptyState (updateResults pg) = selectedEmptyState pg"
  "selectedCount (updateResults pg) = selectedCount pg"
  "selectedEntryMap (updateResults pg) = selectedEntryMap pg"
  "orderedInputsContainer (updateResults pg) = orderedInputsContainer pg"
  "nextNode (updateResults pg) = nextNode pg"
  "searchInput (updateResults pg) = searchInput pg"
  "inputListener (updateResults pg) = inputListener pg"
  "clearButton (updateResults pg) = clearButton pg"
  "clearListener (updateResults pg) = clearListener pg"
  "previewModal (updateResults pg) = previewModal pg"
  "bodyOverflowHidden (updateResults pg) = bodyOverflowHidden pg"
  "activePreviewEntry (updateResults pg) = activePreviewEntry pg"
  "previewListeners (updateResults pg) = previewListeners pg"
  by (simp_all add: updateResults_def clearResults_def Let_def split: option.split)

lemma setChecked_frame [simp]:
  "playlistEditor (setChecked i b pg) = playlistEditor pg"
  "selectedList (setChecked i b pg) = selectedList pg"
  "selectedEmptyState (setChecked i b pg) = selectedEmptyState pg"
  "selectedCount (setChecked i b pg) = selectedCount pg"
  "selectedEntryMap (setChecked i b pg) = selectedEntryMap pg"
  "orderedInputsContainer (setChecked i b pg) = orderedInputsContainer pg"
  "nextNode (setChecked i b pg) = nextNode pg"
  "searchInput (setChecked i b pg) = searchInput pg"
  "inputListener (setChecked i b pg) = inputListener pg"
  "clearButton (setChecked i b pg) = clearButton pg"
  "clearListener (setChecked i b pg) = clearListener pg"
  "resultsWrapper (setChecked i b pg) = resultsWrapper pg"
  "resultsList (setChecked i b pg) = resultsList pg"
  "noResultsAlert (setChecked i b pg) = noResultsAlert pg"
  "previewModal (setChecked i b pg) = previewModal pg"
  "bodyOverflowHidden (setChecked i b pg) = bodyOverflowHidden pg"
  "activePreviewEntry (setChecked i b pg) = activePreviewEntry pg"
  "previewListeners (setChecked i b pg) = previewListeners pg"
  by (simp_all add: setChecked_def)

lemma flipMirror_frame [simp]:
  "playlistEditor (flipMirror k pg) = playlistEditor pg"
  "fileEntries (flipMirror k pg) = fileEntries pg"
  "selectedList (flipMirror k pg) = selectedList pg"
  "selectedEmptyState (flipMirror k pg) = selectedEmptyState pg"
  "selectedCount (flipMirror k pg) = selectedCount pg"
  "selectedEntryMap (flipMirror k pg) = selectedEntryMap pg"
  "orderedInputsContainer (flipMirror k pg) = orderedInputsContainer pg"
  "nextNode (flipMirror k pg) = nextNode pg"
  "searchInput (flipMirror k pg) = searchInput pg"
  "inputListener (flipMirror k pg) = inputListener pg"
  "clearButton (flipMirror k pg) = clearButton pg"
  "clearListener (flipMirror k pg) = clearListener pg"
  "resultsWrapper (flipMirror k pg) = resultsWrapper pg"
  "noResultsAlert (flipMirror k pg) = noResultsAlert pg"
  "previewModal (flipMirror k pg) = previewModal pg"
  "bodyOverflowHidden (flipMirror k pg) = bodyOverflowHidden pg"
  "activePreviewEntry (flipMirror k pg) = activePreviewEntry pg"
  "previewListeners (flipMirror k pg) = previewListeners pg"
  by (simp_all add: flipMirror_def)

lemma closePreview_frame [simp]:
  "playlistEditor (closePreview pg) = playlistEditor pg"
  "fileEntries (closePreview pg) = fileEntries pg"
  "selectedList (closePreview pg) = selectedList pg"
  "selectedEmptyState (closePreview pg) = selectedEmptyState pg"
  "selectedCount (closePreview pg) = selectedCount pg"
  "selectedEntryMap (closePreview pg) = selectedEntryMap pg"
  "orderedInputsContainer (closePreview pg) = orderedInputsContainer pg"
  "nextNode (closePreview pg) = nextNode pg"
  "searchInput (closePreview pg) = searchInput pg"
  "inputListener (closePreview pg) = inputListener pg"
  "clearButton (closePreview pg) = clearButton pg"
  "clearListener (closePreview pg) = clearListener pg"
  "resultsWrapper (closePreview pg) = resultsWrapper pg"
  "resultsList (closePreview pg) = resultsList pg"
  "noResultsAlert (closePreview pg) = noResultsAlert pg"
  "activePreviewEntry (closePreview pg) = activePreviewEntry pg"
  "previewListeners (closePreview pg) = previewListeners pg"
  by (simp_all add: closePreview_def split: option.split)

lemma highlightPreviewEntry_frame [simp]:
  "playlistEditor (highlightPreviewEntry p pg) = playlistEditor pg"
  "selectedList (highlightPreviewEntry p pg) = selectedList pg"
  "selectedEmptyState (highlightPreviewEntry p pg) = selectedEmptyState pg"
  "selectedCount (highlightPreviewEntry p pg) = selectedCount pg"
  "selectedEntryMap (highlightPreviewEntry p pg) = selectedEntryMap pg"
  "orderedInputsContainer (highlightPreviewEntry p pg) = orderedInputsContainer pg"
  "nextNode (highlightPreviewEntry p pg) = nextNode pg"
  "searchInput (highlightPreviewEntry p pg) = searchInput pg"
  "inputListener (highlightPreviewEntry p pg) = inputListener pg"
  "clearButton (highlightPreviewEntry p pg) = clearButton pg"
  "clearListener (highlightPreviewEntry p pg) = clearListener pg"
  "resultsWrapper (highlightPreviewEntry p pg) = resultsWrapper pg"
  "resultsList (highlightPreviewEntry p pg) = resultsList pg"
  "noResultsAlert (highlightPreviewEntry p pg) = noResultsAlert pg"
  "previewModal (highlightPreviewEntry p pg) = previewModal pg"
  "bodyOverflowHidden (highlightPreviewEntry p pg) = bodyOverflowHidden pg"
  "previewListeners (highlightPreviewEntry p pg) = previewListeners pg"
  by (simp_all add: highlightPreviewEntry_def Let_def split: option.split)

lemma openPreview_frame [simp]:
  "playlistEditor (openPreview n s p pg) = playlistEditor pg"
  "selectedList (openPreview n s p pg) = selectedList pg"
  "selectedEmptyState (openPreview n s p pg) = selectedEmptyState pg"
  "selectedCount (openPreview n s p pg) = selectedCount pg"
  "selectedEntryMap (openPreview n s p pg) = selectedEntryMap pg"
  "orderedInputsContainer (openPreview n s p pg) = orderedInputsContainer pg"
  "nextNode (openPreview n s p pg) = nextNode pg"
  "searchInput (openPreview n s p pg) = searchInput pg"
  "inputListener (openPreview n s p pg) = inputListener pg"
  "clearButton (openPreview n s p pg) = clearButton pg"
  "clearListener (openPreview n s p pg) = clearListener pg"
  "resultsWrapper (openPreview n s p pg) = resultsWrapper pg"
  "resultsList (openPreview n s p pg) = resultsList pg"
  "noResultsAlert (openPreview n s p pg) = noResultsAlert pg"
  "previewListeners (openPreview n s p pg) = previewListeners pg"
  by (simp_all add: openPreview_def Let_def split: option.split)

lemma previewTriggerClick_frame [simp]:
  "playlistEditor (previewTriggerClick t pg) = playlistEditor pg"
  "selectedList (previewTriggerClick t pg) = selectedList pg"
  "selectedEmptyState (previewTriggerClick t pg) = selectedEmptyState pg"
  "selectedCount (previewTriggerClick t pg) = selectedCount pg"
  "selectedEntryMap (previewTriggerClick t pg) = selectedEntryMap pg"
  "orderedInputsContainer (previewTriggerClick t pg) = orderedInputsContainer pg"
  "nextNode (previewTriggerClick t pg) = nextNode pg"
  "searchInput (previewTriggerClick t pg) = searchInput pg"
  "inputListener (previewTriggerClick t pg) = inputListener pg"
  "clearButton (previewTriggerClick t pg) = clearButton pg"
  "clearListener (previewTriggerClick t pg) = clearListener pg"
  "resultsWrapper (previewTriggerClick t pg) = resultsWrapper pg"
  "resultsList (previewTriggerClick t pg) = resultsList pg"
  "noResultsAlert (previewTriggerClick t pg) = noResultsAlert pg"
  "previewListeners (previewTriggerClick t pg) = previewListeners pg"
  by (simp_all add: previewTriggerClick_def Let_def split: option.split)

lemma syncSelectedEntry_frame [simp]:
  "playlistEditor (syncSelectedEntry i pg) = playlistEditor pg"
  "searchInput (syncSelectedEntry i pg) = searchInput pg"
  "inputListener (syncSelectedEntry i pg) = inputListener pg"
  "clearButton (syncSelectedEntry i pg) = clearButton pg"
  "clearListener (syncSelectedEntry i pg) = clearListener pg"
  "resultsWrapper (syncSelectedEntry i pg) = resultsWrapper pg"
  "resultsList (syncSelectedEntry i pg) = resultsList pg"
  "noResultsAlert (syncSelectedEntry i pg) = noResultsAlert pg"
  "previewModal (syncSelectedEntry i pg) = previewModal pg"
  "bodyOverflowHidden (syncSelectedEntry i pg) = bodyOverflowHidden pg"
  "activePreviewEntry (syncSelectedEntry i pg) = activePreviewEntry pg"
  "previewListeners (syncSelectedEntry i pg) = previewListeners pg"
proof -
  have "playlistEditor (syncSelectedEntry i pg) = playlistEditor pg
    \<and> searchInput (syncSelectedEntry i pg) = searchInput pg
    \<and> inputListener (syncSelectedEntry i pg) = inputListener pg
    \<and> clearButton (syncSelectedEntry i pg) = clearButton pg
    \<and> clearListener (syncSelectedEntry i pg) = clearListener pg
    \<and> resultsWrapper (syncSelectedEntry i pg) = resultsWrapper pg
    \<and> resultsList (syncSelectedEntry i pg) = resultsList pg
    \<and> noResultsAlert (syncSelectedEntry i pg) = noResultsAlert pg
    \<and> previewModal (syncSelectedEntry i pg) = previewModal pg
    \<and> bodyOverflowHidden (syncSelectedEntry i pg) = bodyOverflowHidden pg
    \<and> activePreviewEntry (syncSelectedEntry i pg) = activePreviewEntry pg
    \<and> previewListeners (syncSelectedEntry i pg) = previewListeners pg"
  proof (cases "selectedList pg = None \<or> path (fileEntries pg ! i) = [] \<or> checkbox (fileEntries pg ! i) = None")
    case True
    then show ?thesis using syncSelectedEntry_skip[of pg i] by auto
  next
    case False
    then obtain sl c where h: "selectedList pg = Some sl" "path (fileEntries pg ! i) \<noteq> []"
      "checkbox (fileEntries pg ! i) = Some c" by auto
    show ?thesis unfolding syncSelectedEntry_unfold[OF h] by (simp split: option.split)
  qed
  then show
  "playlistEditor (syncSelectedEntry i pg) = playlistEditor pg"
  "searchInput (syncSelectedEntry i pg) = searchInput pg"
  "inputListener (syncSelectedEntry i pg) = inputListener pg"
  "clearButton (syncSelectedEntry i pg) = clearButton pg"
  "clearListener (syncSelectedEntry i pg) = clearListener pg"
  "resultsWrapper (syncSelectedEntry i pg) = resultsWrapper pg"
  "resultsList (syncSelectedEntry i pg) = resultsList pg"
  "noResultsAlert (syncSelectedEntry i pg) = noResultsAlert pg"
  "previewModal (syncSelectedEntry i pg) = previewModal pg"
  "bodyOverflowHidden (syncSelectedEntry i pg) = bodyOverflowHidden pg"
  "activePreviewEntry (syncSelectedEntry i pg) = activePreviewEntry pg"
  "previewListeners (syncSelectedEntry i pg) = previewListeners pg"
    by blast+
qed

lemma moveSelectedItem_frame [simp]:
  "playlistEditor (moveSelectedItem item d pg) = playlistEditor pg"
  "fileEntries (moveSelectedItem item d pg) = fileEntries pg"
  "selectedEntryMap (moveSelectedItem item d pg) = selectedEntryMap pg"
  "nextNode (moveSelectedItem item d pg) = nextNode pg"
  "searchInput (moveSelectedItem item d pg) = searchInput pg"
  "inputListener (moveSelectedItem item d pg) = inputListener pg"
  "clearButton (moveSelectedItem item d pg) = clearButton pg"
  "clearListener (moveSelectedItem item d pg) = clearListener pg"
  "resultsWrapper (moveSelectedItem item d pg) = resultsWrapper pg"
  "resultsList (moveSelectedItem item d pg) = resultsList pg"
  "noResultsAlert (moveSelectedItem item d pg) = noResultsAlert pg"
  "previewModal (moveSelectedItem item d pg) = previewModal pg"
  "bodyOverflowHidden (moveSelectedItem item d pg) = bodyOverflowHidden pg"
  "activePreviewEntry (moveSelectedItem item d pg) = activePreviewEntry pg"
  "previewListeners (moveSelectedItem item d pg) = previewListeners pg"
  by (simp_all add: moveSelectedItem_def refresh_order split: option.split)

lemma dispatchChange_frame [simp]:
  "playlistEditor (dispatchChange i pg) = playlistEditor pg"
  "fileEntries (dispatchChange i pg) = fileEntries pg"
  "searchInput (dispatchChange i pg) = searchInput pg"
  "inputListener (dispatchChange i pg) = inputListener pg"
  "clearButton (dispatchChange i pg) = clearButton pg"
  "clearListener (dispatchChange i pg) = clearListener pg"
  "previewModal (dispatchChange i pg) = previewModal pg"
  "bodyOverflowHidden (dispatchChange i pg) = bodyOverflowHidden pg"
  "activePreviewEntry (dispatchChange i pg) = activePreviewEntry pg"
  "previewListeners (dispatchChange i pg) = previewListeners pg"
  by (simp_all add: dispatchChange_def Let_def split: option.split)

lemma mirrorChange_frame [simp]:
  "playlistEditor (mirrorChange r pg) = playlistEditor pg"
  "searchInput (mirrorChange r pg) = searchInput pg"
  "inputListener (mirrorChange r pg) = inputListener pg"
  "clearButton (mirrorChange r pg) = clearButton pg"
  "clearListener (mirrorChange r pg) = clearListener pg"
  "previewModal (mirrorChange r pg) = previewModal pg"
  "bodyOverflowHidden (mirrorChange r pg) = bodyOverflowHidden pg"
  "activePreviewEntry (mirrorChange r pg) = activePreviewEntry pg"
  "previewListeners (mirrorChange r pg) = previewListeners pg"
  by (simp_all add: mirrorChange_def split: option.split)

lemma removeClick_frame [simp]:
  "playlistEditor (removeClick item pg) = playlistEditor pg"
  "searchInput (removeClick item pg) = searchInput pg"
  "inputListener (removeClick item pg) = inputListener pg"
  "clearButton (removeClick item pg) = clearButton pg"
  "clearListener (removeClick item pg) = clearListener pg"
  "previewModal (removeClick item pg) = previewModal pg"
  "bodyOverflowHidden (removeClick item pg) = bodyOverflowHidden pg"
  "activePreviewEntry (removeClick item pg) = activePreviewEntry pg"
  "previewListeners (removeClick item pg) = previewListeners pg"
  by (simp_all add: removeClick_def split: option.split)

section \<open>The preview highlight\<close>

lemma map_update_same: "f y = f (xs ! i) \<Longrightarrow> map f (xs[i := y]) = map f xs"
  by (induction xs arbitrary: i) (auto split: nat.splits)

lemma setChecked_entries [simp]:
  "map previewActive (fileEntries (setChecked i b pg)) = map previewActive (fileEntries pg)"
  "map path (fileEntries (setChecked i b pg)) = map path (fileEntries pg)"
  "map changeListener (fileEntries (setChecked i b pg)) = map changeListener (fileEntries pg)"
  "length (fileEntries (setChecked i b pg)) = length (fileEntries pg)"
  by (simp_all add: setChecked_def map_update_same)

lemma dispatchChange_fileEntries [simp]: "fileEntries (dispatchChange i pg) = fileEntries pg"
  by (simp add: dispatchChange_def Let_def split: option.split)

lemma fileEntryMap_Some:
  assumes "fileEntryMap es p = Some k"
  shows "k < length es \<and> path (es ! k) = p"
proof -
  have "(p, k) \<in> set (zip (map path es) [0..<length es])"
    using map_of_SomeD[OF assms[unfolded fileEntryMap_def]] by auto
  then show ?thesis by (auto simp: in_set_zip)
qed


lemma highlightKept_cong:
  "fileEntries pg' = fileEntries pg \<Longrightarrow> activePreviewEntry pg' = activePreviewEntry pg
   \<Longrightarrow> highlightKept pg' i = highlightKept pg i"
  by (simp add: highlightKept_def highlighted_def split: option.split)

lemma highlightPreviewEntry_sets:
  assumes "p \<noteq> []" "fileEntryMap (fileEntries pg) p = Some k"
  shows "activePreviewEntry (highlightPreviewEntry p pg) = Some k \<and> highlighted (highlightPreviewEntry p pg) k"
  using assms fileEntryMap_Some[OF assms(2)]
  by (auto simp: highlightPreviewEntry_def highlighted_def setPreviewActive_def Let_def split: option.splits)

lemma highlightPreviewEntry_skips:
  "p = [] \<or> fileEntryMap (fileEntries pg) p = None \<Longrightarrow> highlightPreviewEntry p pg = pg"
  by (auto simp: highlightPreviewEntry_def)

lemma highlightPreviewEntry_kept:
  assumes "highlightKept pg i"
  shows "highlightKept (highlightPreviewEntry p pg) i"
proof (cases "p = [] \<or> fileEntryMap (fileEntries pg) p = None")
  case True
  then show ?thesis using assms highlightPreviewEntry_skips by simp
next
  case False
  then obtain k where k: "p \<noteq> []" "fileEntryMap (fileEntries pg) p = Some k" by auto
  from highlightPreviewEntry_sets[OF k] show ?thesis
    by (cases "k = i") (auto simp: highlightKept_def)
qed

lemma openPreview_entries:
  "(fileEntries (openPreview n s p pg) = fileEntries pg \<and> activePreviewEntry (openPreview n s p pg) = activePreviewEntry pg)
   \<or> (fileEntries (openPreview n s p pg) = fileEntries (highlightPreviewEntry p pg)
      \<and> activePreviewEntry (openPreview n s p pg) = activePreviewEntry (highlightPreviewEntry p pg))"
  by (simp add: openPreview_def Let_def split: option.split)

lemma openPreview_kept:
  assumes "highlightKept pg i"
  shows "highlightKept (openPreview n s p pg) i"
  using openPreview_entries[of n s p pg] highlightPreviewEntry_kept[OF assms, of p] assms
  by (metis highlightKept_cong)

lemma previewTriggerClick_kept:
  assumes "highlightKept pg i"
  shows "highlightKept (previewTriggerClick t pg) i"
  unfolding previewTriggerClick_def Let_def
  by (auto split: option.split intro!: openPreview_kept highlightPreviewEntry_kept assms)

lemma step_other_keeps_flags:
  assumes "\<not> isPreviewClick e"
  shows "previewFlags (step e pg) = previewFlags pg \<and> activePreviewEntry (step e pg) = activePreviewEntry pg
         \<and> length (fileEntries (step e pg)) = length (fileEntries pg)"
proof (cases e)
  case (NativeToggle i)
  then show ?thesis by (simp add: previewFlags_def split: option.split)
next
  case (MirrorToggle k)
  then show ?thesis by (simp add: previewFlags_def mirrorChange_def split: option.split)
next
  case (RemoveClick k)
  then show ?thesis by (simp add: previewFlags_def removeClick_def split: option.split)
next
  case (PreviewClick t)
  then show ?thesis using assms by (simp add: isPreviewClick_def)
qed (simp_all add: previewFlags_def split: option.split)

lemma highlighted_flags: "highlighted pg i \<longleftrightarrow> i < length (previewFlags pg) \<and> previewFlags pg ! i"
  by (auto simp: highlighted_def previewFlags_def)

lemma run_other_keeps_flags:
  assumes "\<forall>e \<in> set evs. \<not> isPreviewClick e"
  shows "previewFlags (run evs pg) = previewFlags pg \<and> activePreviewEntry (run evs pg) = activePreviewEntry pg"
  using assms
proof (induction evs arbitrary: pg)
  case Nil
  then show ?case by (simp add: run_def)
next
  case (Cons e evs)
  have "run (e # evs) pg = run evs (step e pg)" by (simp add: run_def)
  then show ?case using Cons step_other_keeps_flags[of e pg] by simp
qed


lemma openPreview_opens:
  assumes "previewModal pg = Some m" "previewVideo m \<noteq> None" "s \<noteq> []"
  shows "isPreviewOpen (openPreview n s p pg)"
  using assms by (auto simp: openPreview_def isPreviewOpen_def Let_def split: option.splits)

lemma previewTriggerClick_opens:
  assumes "canPreview pg t"
  shows "isPreviewOpen (previewTriggerClick t pg)"
proof -
  obtain m where m: "previewModal pg = Some m" "previewVideo m \<noteq> None" "or_js (trigVideoSrc t) [] \<noteq> []"
    using assms by (auto simp: canPreview_def split: option.splits)
  have "isPreviewOpen (openPreview n (or_js (trigVideoSrc t) []) p (highlightPreviewEntry q pg))" for n p q
    by (rule openPreview_opens[where m = m]) (simp_all add: m)
  then show ?thesis
    unfolding previewTriggerClick_def Let_def by (simp split: option.split)
qed

lemma openPreview_refused:
  assumes "previewModal pg = None \<or> (\<exists>m. previewModal pg = Some m \<and> previewVideo m = None) \<or> s = []"
  shows "openPreview n s p pg = pg"
  using assms by (auto simp: openPreview_def split: option.splits)

lemma previewTriggerClick_refused:
  assumes "\<not> canPreview pg t"
  shows "previewModal (previewTriggerClick t pg) = previewModal pg"
proof -
  have "openPreview n (or_js (trigVideoSrc t) []) p (highlightPreviewEntry q pg) = highlightPreviewEntry q pg" for n p q
    using assms by (intro openPreview_refused) (auto simp: canPreview_def split: option.splits)
  then show ?thesis
    unfolding previewTriggerClick_def Let_def by (simp split: option.split)
qed

lemma closePreview_closes:
  assumes "previewModal pg \<noteq> None"
  shows "\<not> isPreviewOpen (closePreview pg)" "\<not> previewLoaded (closePreview pg)"
    "\<not> bodyOverflowHidden (closePreview pg)"
  using assms by (auto simp: isPreviewOpen_def previewLoaded_def closePreview_def split: option.splits)

text \<open>
  Claim C10, as amended. Each of the three ways to close (close button, backdrop, Escape
  while the preview is open) hides the modal, unloads the video and releases the page's
  scrolling, and leaves every catalog entry and the active preview entry as they are; so
  does any sequence of events without a click on a preview trigger. A preview request that
  finds its entry makes it the active one and highlights it. An event after which a
  highlighted entry is no longer highlighted is a click on a preview trigger that left
  another entry active and highlighted. That click has opened the preview when the page
  has a modal with a video and the trigger names a media source; otherwise it has moved
  the highlight and left the modal as it was.
\<close>

theorem closePreview_keeps_highlight:
  "(previewListeners pg \<and> previewModal pg \<noteq> None \<longrightarrow>
        \<not> isPreviewOpen (step CloseClick pg) \<and> \<not> previewLoaded (step CloseClick pg) \<and>
        \<not> bodyOverflowHidden (step CloseClick pg) \<and>
        \<not> isPreviewOpen (step BackdropClick pg) \<and> \<not> previewLoaded (step BackdropClick pg) \<and>
        \<not> bodyOverflowHidden (step BackdropClick pg))
   \<and> (previewListeners pg \<and> isPreviewOpen pg \<longrightarrow>
        \<not> isPreviewOpen (step (KeyDown ''Escape'') pg) \<and> \<not> previewLoaded (step (KeyDown ''Escape'') pg) \<and>
        \<not> bodyOverflowHidden (step (KeyDown ''Escape'') pg))
   \<and> fileEntries (step CloseClick pg) = fileEntries pg
   \<and> activePreviewEntry (step CloseClick pg) = activePreviewEntry pg
   \<and> fileEntries (step BackdropClick pg) = fileEntries pg
   \<and> activePreviewEntry (step BackdropClick pg) = activePreviewEntry pg
   \<and> fileEntries (step (KeyDown key) pg) = fileEntries pg
   \<and> activePreviewEntry (step (KeyDown key) pg) = activePreviewEntry pg
   \<and> fileEntries (closePreview pg) = fileEntries pg
   \<and> activePreviewEntry (closePreview pg) = activePreviewEntry pg
   \<and> (previewModal pg \<noteq> None \<longrightarrow> \<not> isPreviewOpen (closePreview pg) \<and> \<not> previewLoaded (closePreview pg))
   \<and> (p \<noteq> [] \<and> fileEntryMap (fileEntries pg) p = Some k \<longrightarrow>
        activePreviewEntry (highlightPreviewEntry p pg) = Some k \<and> highlighted (highlightPreviewEntry p pg) k)
   \<and> ((\<forall>e \<in> set evs. \<not> isPreviewClick e) \<longrightarrow>
        previewFlags (run evs pg) = previewFlags pg \<and> activePreviewEntry (run evs pg) = activePreviewEntry pg)
   \<and> (highlighted pg i \<and> \<not> highlighted (step e pg) i \<longrightarrow>
        (\<exists>t j. e = PreviewClick t \<and> j \<noteq> i \<and>
           activePreviewEntry (step e pg) = Some j \<and> highlighted (step e pg) j \<and>
           (canPreview pg t \<longrightarrow> isPreviewOpen (step e pg)) \<and>
           (\<not> canPreview pg t \<longrightarrow> previewModal (step e pg) = previewModal pg)))"
proof (intro conjI impI)
  show "fileEntries (closePreview pg) = fileEntries pg" by simp
  show "activePreviewEntry (closePreview pg) = activePreviewEntry pg" by simp
  show "fileEntries (step CloseClick pg) = fileEntries pg" by simp
  show "activePreviewEntry (step CloseClick pg) = activePreviewEntry pg" by simp
  show "fileEntries (step BackdropClick pg) = fileEntries pg" by simp
  show "activePreviewEntry (step BackdropClick pg) = activePreviewEntry pg" by simp
  show "fileEntries (step (KeyDown key) pg) = fileEntries pg" by simp
  show "activePreviewEntry (step (KeyDown key) pg) = activePreviewEntry pg" by simp
next
  assume a: "previewListeners pg \<and> previewModal pg \<noteq> None"
  then have m: "previewModal pg \<noteq> None" by simp
  show "\<not> isPreviewOpen (step CloseClick pg)" "\<not> previewLoaded (step CloseClick pg)"
    "\<not> bodyOverflowHidden (step CloseClick pg)"
    "\<not> isPreviewOpen (step BackdropClick pg)" "\<not> previewLoaded (step BackdropClick pg)"
    "\<not> bodyOverflowHidden (step BackdropClick pg)"
    using a closePreview_closes[OF m] by simp_all
next
  assume a: "previewListeners pg \<and> isPreviewOpen pg"
  then have m: "previewModal pg \<noteq> None" by (auto simp: isPreviewOpen_def split: option.splits)
  show "\<not> isPreviewOpen (step (KeyDown ''Escape'') pg)" "\<not> previewLoaded (step (KeyDown ''Escape'') pg)"
    "\<not> bodyOverflowHidden (step (KeyDown ''Escape'') pg)"
    using a closePreview_closes[OF m] by simp_all
next
  assume "previewModal pg \<noteq> None"
  then show "\<not> isPreviewOpen (closePreview pg)" "\<not> previewLoaded (closePreview pg)"
    by (rule closePreview_closes)+
next
  assume "p \<noteq> [] \<and> fileEntryMap (fileEntries pg) p = Some k"
  then show "activePreviewEntry (highlightPreviewEntry p pg) = Some k"
    "highlighted (highlightPreviewEntry p pg) k"
    using highlightPreviewEntry_sets[of p pg k] by simp_all
next
  assume "\<forall>e \<in> set evs. \<not> isPreviewClick e"
  then show "previewFlags (run evs pg) = previewFlags pg" "activePreviewEntry (run evs pg) = activePreviewEntry pg"
    using run_other_keeps_flags[of evs pg] by simp_all
next
  assume a: "highlighted pg i \<and> \<not> highlighted (step e pg) i"
  have c: "isPreviewClick e"
  proof (rule ccontr)
    assume "\<not> isPreviewClick e"
    then have "previewFlags (step e pg) = previewFlags pg" using step_other_keeps_flags by blast
    then show False using a by (auto simp: highlighted_flags)
  qed
  then obtain t where t: "e = PreviewClick t" by (cases e) (simp_all add: isPreviewClick_def)
  have s: "step e pg = previewTriggerClick t pg"
    using a unfolding t by (auto split: if_splits)
  have "highlightKept pg i" using a by (simp add: highlightKept_def)
  then have "highlightKept (step e pg) i"
    unfolding s by (simp add: previewTriggerClick_kept)
  then obtain j where j: "j \<noteq> i" "activePreviewEntry (step e pg) = Some j" "highlighted (step e pg) j"
    using a by (auto simp: highlightKept_def split: option.splits)
  have o: "canPreview pg t \<longrightarrow> isPreviewOpen (step e pg)"
    unfolding s by (simp add: previewTriggerClick_opens)
  have r: "\<not> canPreview pg t \<longrightarrow> previewModal (step e pg) = previewModal pg"
    unfolding s by (simp add: previewTriggerClick_refused)
  show "\<exists>t j. e = PreviewClick t \<and> j \<noteq> i \<and>
           activePreviewEntry (step e pg) = Some j \<and> highlighted (step e pg) j \<and>
           (canPreview pg t \<longrightarrow> isPreviewOpen (step e pg)) \<and>
           (\<not> canPreview pg t \<longrightarrow> previewModal (step e pg) = previewModal pg)"
    using t j o r by blast
qed

text \<open>
  On the page with entries a, b, c and a preview of a open: each way to close hides the
  modal and keeps the highlight on a. Afterwards the preview of b moves the highlight to
  b and opens, and a click on a trigger of b that names no media source moves the
  highlight to b and leaves the modal closed.
\<close>

theorem closePreview_keeps_highlight_witness:
  "previewListeners (step (PreviewClick (abcTrigger 0 ''a'')) loadedAbc)
   \<and> isPreviewOpen (step (PreviewClick (abcTrigger 0 ''a'')) loadedAbc)
   \<and> previewModal (step (PreviewClick (abcTrigger 0 ''a'')) loadedAbc) \<noteq> None
   \<and> fileEntryMap (fileEntries loadedAbc) ''a'' = Some 0
   \<and> \<not> isPreviewClick CloseClick \<and> \<not> isPreviewClick (KeyDown ''Escape'') \<and> \<not> isPreviewClick BackdropClick
   \<and> highlighted (step (PreviewClick (abcTrigger 0 ''a'')) loadedAbc) 0
   \<and> \<not> isPreviewOpen (step CloseClick (step (PreviewClick (abcTrigger 0 ''a'')) loadedAbc))
   \<and> \<not> isPreviewOpen (step BackdropClick (step (PreviewClick (abcTrigger 0 ''a'')) loadedAbc))
   \<and> \<not> isPreviewOpen (step (KeyDown ''Escape'') (step (PreviewClick (abcTrigger 0 ''a'')) loadedAbc))
   \<and> \<not> previewLoaded (step (KeyDown ''Escape'') (step (PreviewClick (abcTrigger 0 ''a'')) loadedAbc))
   \<and> highlighted (run [CloseClick, KeyDown ''Escape'', BackdropClick] (step (PreviewClick (abcTrigger 0 ''a'')) loadedAbc)) 0
   \<and> activePreviewEntry (run [CloseClick, KeyDown ''Escape'', BackdropClick] (step (PreviewClick (abcTrigger 0 ''a'')) loadedAbc)) = Some 0
   \<and> \<not> highlighted (step (PreviewClick (abcTrigger 1 ''b'')) (step (PreviewClick (abcTrigger 0 ''a'')) loadedAbc)) 0
   \<and> canPreview (step (PreviewClick (abcTrigger 0 ''a'')) loadedAbc) (abcTrigger 1 ''b'')
   \<and> highlighted (step (PreviewClick (abcTrigger 1 ''b'')) (step (PreviewClick (abcTrigger 0 ''a'')) loadedAbc)) 1
   \<and> isPreviewOpen (step (PreviewClick (abcTrigger 1 ''b'')) (step (PreviewClick (abcTrigger 0 ''a'')) loadedAbc))
   \<and> highlighted (run [PreviewClick (abcTrigger 0 ''a''), CloseClick] loadedAbc) 0
   \<and> \<not> canPreview (run [PreviewClick (abcTrigger 0 ''a''), CloseClick] loadedAbc) ((abcTrigger 1 ''b'')\<lparr> trigVideoSrc := None \<rparr>)
   \<and> \<not> highlighted (step (PreviewClick ((abcTrigger 1 ''b'')\<lparr> trigVideoSrc := None \<rparr>))
           (run [PreviewClick (abcTrigger 0 ''a''), CloseClick] loadedAbc)) 0
   \<and> previewModal (step (PreviewClick ((abcTrigger 1 ''b'')\<lparr> trigVideoSrc := None \<rparr>))
           (run [PreviewClick (abcTrigger 0 ''a''), CloseClick] loadedAbc))
       = previewModal (run [PreviewClick (abcTrigger 0 ''a''), CloseClick] loadedAbc)"
proof -
  let ?pgA = "step (PreviewClick (abcTrigger 0 ''a'')) loadedAbc"
  let ?pgC = "run [PreviewClick (abcTrigger 0 ''a''), CloseClick] loadedAbc"
  let ?quiet = "(abcTrigger 1 ''b'')\<lparr> trigVideoSrc := None \<rparr>"
  have k: "previewListeners ?pgA" "isPreviewOpen ?pgA"
    "previewModal ?pgA \<noteq> None" "fileEntryMap (fileEntries loadedAbc) ''a'' = Some 0"
    "\<forall>e \<in> set [CloseClick, KeyDown ''Escape'', BackdropClick]. \<not> isPreviewClick e"
    "highlighted ?pgA 0" "activePreviewEntry ?pgA = Some 0"
    "\<not> highlighted (step (PreviewClick (abcTrigger 1 ''b'')) ?pgA) 0"
    "highlighted (step (PreviewClick (abcTrigger 1 ''b'')) ?pgA) 1"
    "canPreview ?pgA (abcTrigger 1 ''b'')"
    "isPreviewOpen (step (PreviewClick (abcTrigger 1 ''b'')) ?pgA)"
    by code_simp+
  have q: "highlighted ?pgC 0" "\<not> canPreview ?pgC ?quiet"
    "\<not> highlighted (step (PreviewClick ?quiet) ?pgC) 0"
    by code_simp+
  note t1 = closePreview_keeps_highlight[where pg = ?pgA and p = "''a''" and k = 0 and i = 0
      and evs = "[CloseClick, KeyDown ''Escape'', BackdropClick]" and e = "PreviewClick (abcTrigger 1 ''b'')"]
  note t2 = closePreview_keeps_highlight[where pg = ?pgC and i = 0 and e = "PreviewClick ?quiet"]
  have 1: "\<not> isPreviewOpen (step CloseClick ?pgA)" "\<not> isPreviewOpen (step BackdropClick ?pgA)"
    "\<not> isPreviewOpen (step (KeyDown ''Escape'') ?pgA)" "\<not> previewLoaded (step (KeyDown ''Escape'') ?pgA)"
    "previewFlags (run [CloseClick, KeyDown ''Escape'', BackdropClick] ?pgA) = previewFlags ?pgA"
    "activePreviewEntry (run [CloseClick, KeyDown ''Escape'', BackdropClick] ?pgA) = activePreviewEntry ?pgA"
    using t1 k(1,2,3,5) by blast+
  have 2: "previewModal (step (PreviewClick ?quiet) ?pgC) = previewModal ?pgC"
    using t2 q by blast
  show ?thesis using k q 1 2 by (simp add: highlighted_flags)
qed

text \<open>
  Claim C10 as written lets the highlight go only when a preview for another entry is
  opened. After the preview of a was opened and closed, a click on a trigger of b that
  names no media source takes the highlight from a and gives it to b, and no preview is
  open or loaded.
\<close>

theorem preview_request_moves_highlight_counterexample:
  "highlighted (run [PreviewClick (abcTrigger 0 ''a''), CloseClick] loadedAbc) 0
   \<and> \<not> highlighted (run [PreviewClick (abcTrigger 0 ''a''), CloseClick,
                            PreviewClick ((abcTrigger 1 ''b'')\<lparr> trigVideoSrc := None \<rparr>)] loadedAbc) 0
   \<and> highlighted (run [PreviewClick (abcTrigger 0 ''a''), CloseClick,
                        PreviewClick ((abcTrigger 1 ''b'')\<lparr> trigVideoSrc := None \<rparr>)] loadedAbc) 1
   \<and> \<not> isPreviewOpen (run [PreviewClick (abcTrigger 0 ''a''), CloseClick,
                             PreviewClick ((abcTrigger 1 ''b'')\<lparr> trigVideoSrc := None \<rparr>)] loadedAbc)
   \<and> \<not> previewLoaded (run [PreviewClick (abcTrigger 0 ''a''), CloseClick,
                             PreviewClick ((abcTrigger 1 ''b'')\<lparr> trigVideoSrc := None \<rparr>)] loadedAbc)"
  by code_simp

section \<open>Invariants of the wired page\<close>

lemma panel_views_setChecked [simp]:
  "panelItems (setChecked i b pg) = panelItems pg"
  "panelOrder (setChecked i b pg) = panelOrder pg"
  "panelNodes (setChecked i b pg) = panelNodes pg"
  by (simp_all add: panelItems_def panelOrder_def panelNodes_def)

lemma panel_ok_setChecked [simp]: "panel_ok (setChecked i b pg) = panel_ok pg"
  by (simp add: panel_ok_def)

lemma views_cong:
  assumes "selectedList pg' = selectedList pg"
  shows "panelItems pg' = panelItems pg" "panelOrder pg' = panelOrder pg" "panelNodes pg' = panelNodes pg"
    "panelLinks pg' = panelLinks pg"
  using assms by (simp_all add: panelItems_def panelOrder_def panelNodes_def panelLinks_def)

lemma setReorderControls_links [simp]:
  "map (\<lambda>it. (itemEntry it, selectedVideoItem it)) (setReorderControls xs) = map (\<lambda>it. (itemEntry it, selectedVideoItem it)) xs"
  by (simp add: setReorderControls_def map_reorder)

lemma panelLinks_simps [simp]:
  "panelLinks (refreshAll pg) = panelLinks pg"
  "selectedList pg \<noteq> None \<Longrightarrow> panelLinks (setChildren xs pg) = map (\<lambda>it. (itemEntry it, selectedVideoItem it)) xs"
  "panelLinks (pg\<lparr> selectedEntryMap := m \<rparr>) = panelLinks pg"
  "panelLinks (pg\<lparr> nextNode := k \<rparr>) = panelLinks pg"
  "panelLinks (pg\<lparr> fileEntries := es \<rparr>) = panelLinks pg"
  "panelLinks (setChecked i b pg) = panelLinks pg"
  by (simp_all add: panelLinks_def)

lemma panelOrder_links: "panelOrder pg = map snd (panelLinks pg)"
  by (simp add: panelOrder_def panelLinks_def comp_def)

lemma nonempty_paths:
  assumes "items_linked pg" "catalog_ok (fileEntries pg)"
  shows "filter (\<lambda>p. p \<noteq> []) (panelOrder pg) = panelOrder pg"
proof -
  have "\<forall>p \<in> set (panelOrder pg). p \<noteq> []"
  proof
    fix p assume "p \<in> set (panelOrder pg)"
    then obtain i where "(i, p) \<in> set (panelLinks pg)"
      by (auto simp: panelOrder_links)
    then have "i < length (fileEntries pg)" "path (fileEntries pg ! i) = p"
      using assms(1) by (auto simp: items_linked_def)
    then have "p \<in> set (map path (fileEntries pg))" by (metis length_map nth_map nth_mem)
    then show "p \<noteq> []" using assms(2) by (auto simp: catalog_ok_def simp del: set_map)
  qed
  then show ?thesis by (simp add: filter_id_conv)
qed

lemma checkedPaths_set:
  "set (checkedPaths es) = {path (es ! k) | k. k < length es \<and> checkbox (es ! k) = Some True}"
  by (auto simp: checkedPaths_def in_set_conv_nth)

lemma catalog_index:
  assumes "catalog_ok es" "j < length es" "k < length es" "path (es ! j) = path (es ! k)"
  shows "j = k"
  using assms nth_eq_iff_index_eq[of "map path es" j k] by (simp add: catalog_ok_def)

lemma checkedPaths_append:
  "checkedPaths (as @ bs) = checkedPaths as @ checkedPaths bs"
  by (simp add: checkedPaths_def)

lemma checkedPaths_subset: "set (checkedPaths es) \<subseteq> set (map path es)"
  by (auto simp: checkedPaths_def)

lemma checkedPaths_update:
  assumes "catalog_ok es" "i < length es"
  shows "set (checkedPaths (es[i := (es ! i)\<lparr> checkbox := Some b \<rparr>])) =
           (if b then insert (path (es ! i)) (set (checkedPaths es)) else set (checkedPaths es) - {path (es ! i)})"
proof -
  define as where "as = take i es"
  define bs where "bs = drop (Suc i) es"
  define e where "e = es ! i"
  have es: "es = as @ e # bs"
    unfolding as_def bs_def e_def using assms(2) by (simp add: id_take_nth_drop)
  have up: "es[i := e\<lparr> checkbox := Some b \<rparr>] = as @ e\<lparr> checkbox := Some b \<rparr> # bs"
    unfolding as_def bs_def using assms(2) by (simp add: upd_conv_take_nth_drop)
  have "distinct (map path (as @ e # bs))" "[] \<notin> set (map path (as @ e # bs))"
    using assms(1) unfolding catalog_ok_def by (subst es[symmetric], blast)+
  then have d: "path e \<notin> set (map path as)" "path e \<notin> set (map path bs)"
    by auto
  have n: "path e \<notin> set (checkedPaths as)" "path e \<notin> set (checkedPaths bs)"
    using d checkedPaths_subset by blast+
  have c1: "checkedPaths (as @ e\<lparr> checkbox := Some b \<rparr> # bs)
            = checkedPaths as @ (if b then [path e] else []) @ checkedPaths bs"
    by (simp add: checkedPaths_def)
  have c2: "checkedPaths (as @ e # bs)
            = checkedPaths as @ (if checkbox e = Some True then [path e] else []) @ checkedPaths bs"
    by (simp add: checkedPaths_def)
  have m: "set (checkedPaths (as @ e\<lparr> checkbox := Some b \<rparr> # bs)) =
           (if b then insert (path e) (set (checkedPaths (as @ e # bs))) else set (checkedPaths (as @ e # bs)) - {path e})"
    unfolding c1 c2 using n by auto
  show ?thesis
    unfolding e_def[symmetric] up using m unfolding es[symmetric] .
qed


lemma items_linked_sync:
  assumes "items_linked pg" "panel_ok pg" "i < length (fileEntries pg)"
  shows "items_linked (syncSelectedEntry i pg)"
proof (cases "selectedList pg = None \<or> path (fileEntries pg ! i) = [] \<or> checkbox (fileEntries pg ! i) = None")
  case True
  then show ?thesis using assms syncSelectedEntry_skip[of pg i] by auto
next
  case False
  then obtain sl c where h: "selectedList pg = Some sl" "path (fileEntries pg ! i) \<noteq> []"
    "checkbox (fileEntries pg ! i) = Some c" by auto
  have l: "panelLinks pg = map (\<lambda>it. (itemEntry it, selectedVideoItem it)) (children sl)"
    using h(1) by (simp add: panelLinks_def panelItems_def)
  show ?thesis
  proof (cases "c \<longleftrightarrow> path (fileEntries pg ! i) \<in> set (panelOrder pg)")
    case True
    show ?thesis unfolding syncSelectedEntry_same[OF assms(2) h True]
      using assms(1) by (simp add: items_linked_def)
  next
    case False
    show ?thesis
    proof (cases c)
      case True
      with False h have a: "checkbox (fileEntries pg ! i) = Some True" "path (fileEntries pg ! i) \<notin> set (panelOrder pg)"
        by auto
      show ?thesis unfolding syncSelectedEntry_add[OF assms(2) h(1,2) a]
        using assms(1,3) h(1) by (auto simp: items_linked_def l buildSelectedListItem_def)
    next
      case c: False
      with False h have a: "checkbox (fileEntries pg ! i) = Some False" "path (fileEntries pg ! i) \<in> set (panelOrder pg)"
        by auto
      show ?thesis unfolding syncSelectedEntry_remove[OF assms(2) h(1,2) a]
        using assms(1) h(1) by (auto simp: items_linked_def l)
    qed
  qed
qed


lemma updateResults_presence [simp]:
  "resultsList (updateResults pg) = None \<longleftrightarrow> resultsList pg = None"
  "resultsWrapper (updateResults pg) = None \<longleftrightarrow> resultsWrapper pg = None"
  "resultsList (clearResults pg) = None \<longleftrightarrow> resultsList pg = None"
  "resultsWrapper (clearResults pg) = None \<longleftrightarrow> resultsWrapper pg = None"
  by (simp_all add: updateResults_def clearResults_def Let_def split: option.split)

lemma panel_views_results [simp]:
  "panelItems (updateResults pg) = panelItems pg"
  "panelOrder (updateResults pg) = panelOrder pg"
  "panelLinks (updateResults pg) = panelLinks pg"
  "panelItems (clearResults pg) = panelItems pg"
  "panelOrder (clearResults pg) = panelOrder pg"
  "panelLinks (clearResults pg) = panelLinks pg"
  by (simp_all add: panelItems_def panelOrder_def panelLinks_def)

lemma panel_ok_results [simp]:
  "panel_ok (updateResults pg) = panel_ok pg"
  "panel_ok (clearResults pg) = panel_ok pg"
  by (simp_all add: panel_ok_def panelNodes_def)

lemma mirror_ok_updateResults:
  assumes "searchInput pg \<noteq> None"
  shows "mirror_ok (updateResults pg)"
proof -
  obtain v where v: "searchInput pg = Some v" using assms by auto
  show ?thesis
  proof (cases "toLowerCase (trim v) = []")
    case True
    then show ?thesis using v
      by (simp add: updateResults_def clearResults_def mirror_ok_def split: option.split)
  next
    case False
    then have t: "trim v \<noteq> []" by (auto simp: toLowerCase_def)
    have e: "\<And>k x. (k, x) \<in> set (enumerate 0 (fileEntries pg)) \<Longrightarrow> k < length (fileEntries pg) \<and> x = fileEntries pg ! k"
      by (auto simp: in_set_enumerate_eq)
    show ?thesis using v False t
      by (auto simp: updateResults_def Let_def mirror_ok_def buildResultItem_def dest!: e split: option.split)
  qed
qed

lemma wired_setChecked:
  assumes "wired pg" "i < length (fileEntries pg)" "checkbox (fileEntries pg ! i) \<noteq> None"
  shows "wired (setChecked i b pg)"
proof -
  let ?e = "(fileEntries pg ! i)\<lparr> checkbox := Some b \<rparr>"
  have l: "\<forall>e \<in> set (fileEntries pg). checkbox e \<noteq> None \<longrightarrow> changeListener e"
    using assms(1) by (simp add: wired_def)
  have "fileEntries pg ! i \<in> set (fileEntries pg)" using assms(2) by simp
  then have c: "changeListener ?e" using l assms(3) by auto
  have "set ((fileEntries pg)[i := ?e]) \<subseteq> insert ?e (set (fileEntries pg))"
    by (rule set_update_subset_insert)
  then have "\<forall>e \<in> set ((fileEntries pg)[i := ?e]). checkbox e \<noteq> None \<longrightarrow> changeListener e"
    using l c by blast
  then show ?thesis using assms(1) by (simp add: wired_def setChecked_def)
qed

lemma wired_sync: "wired (syncSelectedEntry i pg) = wired pg"
  by (simp add: wired_def)

lemma wired_updateResults: "wired (updateResults pg) = wired pg"
  by (simp add: wired_def)

lemma setChecked_nth:
  "i < length (fileEntries pg) \<Longrightarrow> fileEntries (setChecked i b pg) ! i = (fileEntries pg ! i)\<lparr> checkbox := Some b \<rparr>"
  by (simp add: setChecked_def)

lemma items_linked_setChecked:
  assumes "items_linked pg"
  shows "items_linked (setChecked i b pg)"
proof -
  have "\<And>k. k < length (fileEntries pg) \<Longrightarrow> path (fileEntries (setChecked i b pg) ! k) = path (fileEntries pg ! k)"
    by (metis setChecked_entries(2,4) nth_map)
  then show ?thesis using assms by (auto simp: items_linked_def)
qed

text \<open>Setting a native checkbox and dispatching its change event keeps the page consistent.\<close>

lemma toggle_selection_ok:
  assumes "selection_ok pg" "i < length (fileEntries pg)" "checkbox (fileEntries pg ! i) \<noteq> None"
  shows "selection_ok (dispatchChange i (setChecked i b pg))"
proof -
  define pg1 where "pg1 = setChecked i b pg"
  define pg2 where "pg2 = syncSelectedEntry i pg1"
  have ok: "wired pg" "catalog_ok (fileEntries pg)" "panel_ok pg" "items_linked pg" "toggles_match pg" "mirror_ok pg"
    using assms(1) by (simp_all add: selection_ok_def)
  obtain sl where sl: "selectedList pg = Some sl" using ok(1) by (auto simp: wired_def)
  have "path (fileEntries pg ! i) \<in> path ` set (fileEntries pg)"
    using assms(2) by (intro imageI nth_mem)
  then have p: "path (fileEntries pg ! i) \<noteq> []"
    using ok(2) by (auto simp: catalog_ok_def)
  have w1: "wired pg1" unfolding pg1_def by (rule wired_setChecked[OF ok(1) assms(2,3)])
  have c1: "catalog_ok (fileEntries pg1)" unfolding pg1_def using ok(2) by (simp add: catalog_ok_def)
  have k1: "panel_ok pg1" unfolding pg1_def using ok(3) by simp
  have l1: "items_linked pg1" unfolding pg1_def by (rule items_linked_setChecked[OF ok(4)])
  have e1: "path (fileEntries pg1 ! i) = path (fileEntries pg ! i)" "checkbox (fileEntries pg1 ! i) = Some b"
    "length (fileEntries pg1) = length (fileEntries pg)" "selectedList pg1 = Some sl"
    unfolding pg1_def using assms(2) sl by (simp_all add: setChecked_nth)
  have s1: "set (checkedPaths (fileEntries pg1)) =
             (if b then insert (path (fileEntries pg ! i)) (set (checkedPaths (fileEntries pg)))
              else set (checkedPaths (fileEntries pg)) - {path (fileEntries pg ! i)})"
    unfolding pg1_def setChecked_def using checkedPaths_update[OF ok(2) assms(2), of b] by simp
  have w2: "wired pg2" unfolding pg2_def using w1 by (simp add: wired_sync)
  have c2: "catalog_ok (fileEntries pg2)" unfolding pg2_def using c1 by simp
  have k2: "panel_ok pg2" unfolding pg2_def by (rule panel_ok_syncSelectedEntry[OF k1])
  have l2: "items_linked pg2" unfolding pg2_def using items_linked_sync[OF l1 k1] assms(2) e1(3) by simp
  have o2: "panelOrder pg2 =
           (if b then (if path (fileEntries pg ! i) \<in> set (panelOrder pg1) then panelOrder pg1
                       else panelOrder pg1 @ [path (fileEntries pg ! i)])
            else removeAll (path (fileEntries pg ! i)) (panelOrder pg1))"
    unfolding pg2_def by (rule syncSelectedEntry_order[OF k1 e1(4) e1(1) p e1(2)])
  have po1: "panelOrder pg1 = panelOrder pg" unfolding pg1_def by simp
  have t2: "toggles_match pg2"
    using ok(5) s1 o2 po1 unfolding toggles_match_def pg2_def by (auto split: if_splits)
  have cl: "changeListener (fileEntries pg1 ! i)"
    using w1 e1(2,3) assms(2) nth_mem[of i "fileEntries pg1"] by (auto simp: wired_def)
  obtain v where v: "searchInput pg2 = Some v"
    using w2 by (auto simp: wired_def)
  have d: "dispatchChange i pg1 = (if trim v \<noteq> [] then updateResults pg2 else pg2)"
    using cl v unfolding pg2_def by (simp add: dispatchChange_def Let_def)
  have m: "mirror_ok (if trim v \<noteq> [] then updateResults pg2 else pg2)"
  proof (cases "trim v \<noteq> []")
    case True
    then show ?thesis using mirror_ok_updateResults[of pg2] v by simp
  next
    case False
    have "searchInput pg = Some v" using v unfolding pg2_def pg1_def by simp
    then have "case resultsList pg of None \<Rightarrow> True | Some rl \<Rightarrow> resultItems rl = []"
      using ok(6) False by (auto simp: mirror_ok_def split: option.splits)
    moreover have "resultsList pg2 = resultsList pg" unfolding pg2_def pg1_def by simp
    ultimately show ?thesis using False by (auto simp: mirror_ok_def split: option.splits)
  qed
  have "selection_ok (if trim v \<noteq> [] then updateResults pg2 else pg2)"
    using w2 c2 k2 l2 t2 m
    by (simp add: selection_ok_def wired_updateResults items_linked_def toggles_match_def)
  then show ?thesis unfolding d pg1_def[symmetric] .
qed

lemma setChildren_same: "selectedList pg = Some sl \<Longrightarrow> setChildren (children sl) pg = pg"
  by (simp add: setChildren_def)

lemma mirror_ok_cong:
  "fileEntries pg' = fileEntries pg \<Longrightarrow> resultsList pg' = resultsList pg \<Longrightarrow> searchInput pg' = searchInput pg
   \<Longrightarrow> mirror_ok pg' = mirror_ok pg"
  by (simp add: mirror_ok_def cong: option.case_cong)

text \<open>Rearranging the items of the selected list keeps the page consistent.\<close>

lemma rearranged_selection_ok:
  assumes "selection_ok pg" "selectedList pg = Some sl" "set ys = set (children sl)"
    and "distinct (map nodeId ys)" "distinct (map selectedVideoItem ys)"
  shows "selection_ok (refreshAll (setChildren ys pg))"
proof -
  have ok: "wired pg" "catalog_ok (fileEntries pg)" "panel_ok pg" "items_linked pg" "toggles_match pg" "mirror_ok pg"
    using assms(1) by (simp_all add: selection_ok_def)
  have n: "selectedList pg \<noteq> None" using assms(2) by simp
  have xs: "panelItems pg = children sl" using assms(2) by (simp add: panelItems_def)
  have w: "wired (refreshAll (setChildren ys pg))"
    using ok(1) by (simp add: wired_def)
  have k: "panel_ok (refreshAll (setChildren ys pg))"
    using ok(3) n assms(3,4,5) by (simp add: panel_ok_def panelNodes_def panelOrder_def xs)
  have l: "items_linked (refreshAll (setChildren ys pg))"
    using ok(4) n assms(3) by (simp add: items_linked_def panelLinks_def xs)
  have t: "toggles_match (refreshAll (setChildren ys pg))"
    using ok(5) n assms(3) by (simp add: toggles_match_def panelOrder_def xs)
  have m: "mirror_ok (refreshAll (setChildren ys pg))"
    using ok(6) mirror_ok_cong[of "refreshAll (setChildren ys pg)" pg] by simp
  show ?thesis using w ok(2) k l t m by (simp add: selection_ok_def)
qed

lemma serialized_refreshAll:
  assumes "items_linked (refreshAll pg)" "catalog_ok (fileEntries pg)" "selectedList pg \<noteq> None"
  shows "serialized (refreshAll pg)"
proof -
  have "filter (\<lambda>p. p \<noteq> []) (panelOrder (refreshAll pg)) = panelOrder (refreshAll pg)"
    by (rule nonempty_paths[OF assms(1)]) (simp add: assms(2))
  then show ?thesis using assms(3)
    by (auto simp: serialized_def orderedInputs_refreshAll split: option.splits)
qed

lemma nth_decomp2:
  assumes "Suc k < length xs"
  shows "xs = take k xs @ xs ! k # xs ! Suc k # drop (Suc (Suc k)) xs"
proof -
  have a: "xs = take k xs @ xs ! k # drop (Suc k) xs"
    by (rule id_take_nth_drop) (use assms in simp)
  have b: "drop (Suc k) xs = xs ! Suc k # drop (Suc (Suc k)) xs"
    by (rule Cons_nth_drop_Suc[symmetric]) (rule assms)
  show ?thesis by (rule trans[OF a]) (simp only: b)
qed

text \<open>A click on a move button leaves the page alone or exchanges two neighbours.\<close>

lemma move_click_shape:
  assumes "panel_ok pg" "e = MoveUpClick k \<or> e = MoveDownClick k"
  shows "step e pg = pg \<or>
         (\<exists>sl as a b bs. selectedList pg = Some sl \<and> children sl = as @ a # b # bs \<and>
            step e pg = refreshAll (setChildren (as @ b # a # bs) pg))"
proof (cases "selectedList pg")
  case None
  then show ?thesis using assms(2) by auto
next
  case (Some sl)
  have d: "distinct (map nodeId (children sl))"
    using assms(1) Some by (simp add: panel_ok_def panelNodes_def panelItems_def)
  from assms(2) show ?thesis
  proof
    assume e: "e = MoveUpClick k"
    show ?thesis
    proof (cases "k < length (children sl) \<and> \<not> moveUpDisabled (children sl ! k)")
      case False
      then show ?thesis using e Some by auto
    next
      case True
      show ?thesis
      proof (cases k)
        case 0
        then obtain a rest where "children sl = a # rest" using True by (cases "children sl") auto
        then have "moveSelectedItem (nodeId (children sl ! k)) (- 1) pg = pg"
          using Some 0 by (simp add: moveSelectedItem_def previousElementSibling_first)
        then show ?thesis using e Some True by simp
      next
        case (Suc j)
        have jk: "Suc j < length (children sl)" using True Suc by simp
        have c: "children sl = take j (children sl) @ children sl ! j # children sl ! Suc j # drop (Suc (Suc j)) (children sl)"
          by (rule nth_decomp2[OF jk])
        have st: "step e pg = moveSelectedItem (nodeId (children sl ! Suc j)) (- 1) pg"
          using e Some True Suc by simp
        have mv: "moveSelectedItem (nodeId (children sl ! Suc j)) (- 1) pg =
                refreshAll (setChildren (take j (children sl) @ children sl ! Suc j # children sl ! j # drop (Suc (Suc j)) (children sl)) pg)"
          using moveSelectedItem_up[OF Some d c] by (simp add: refresh_order)
        show ?thesis
          by (rule disjI2, intro exI conjI, rule Some, rule c) (simp only: st mv)
      qed
    qed
  next
    assume e: "e = MoveDownClick k"
    show ?thesis
    proof (cases "k < length (children sl) \<and> \<not> moveDownDisabled (children sl ! k)")
      case False
      then show ?thesis using e Some by auto
    next
      case True
      show ?thesis
      proof (cases "Suc k < length (children sl)")
        case False
        then have dr: "drop (Suc k) (children sl) = []" by simp
        have "children sl = take k (children sl) @ children sl ! k # drop (Suc k) (children sl)"
          by (rule id_take_nth_drop) (use True in simp)
        then have c: "children sl = take k (children sl) @ [children sl ! k]"
          unfolding dr .
        have "distinct (map nodeId (take k (children sl) @ [children sl ! k]))"
          using d by (subst c[symmetric])
        then have "nextElementSibling (take k (children sl) @ [children sl ! k]) (nodeId (children sl ! k)) = None"
          by (rule nextElementSibling_last)
        then have "nextElementSibling (children sl) (nodeId (children sl ! k)) = None"
          by (subst c)
        then have "moveSelectedItem (nodeId (children sl ! k)) 1 pg = pg"
          using Some by (simp add: moveSelectedItem_def)
        then show ?thesis using e Some True by simp
      next
        case s: True
        have c: "children sl = take k (children sl) @ children sl ! k # children sl ! Suc k # drop (Suc (Suc k)) (children sl)"
          by (rule nth_decomp2[OF s])
        have st: "step e pg = moveSelectedItem (nodeId (children sl ! k)) 1 pg"
          using e Some True by simp
        have mv: "moveSelectedItem (nodeId (children sl ! k)) 1 pg =
                refreshAll (setChildren (take k (children sl) @ children sl ! Suc k # children sl ! k # drop (Suc (Suc k)) (children sl)) pg)"
          using moveSelectedItem_down[OF Some d c] by (simp add: refresh_order)
        show ?thesis
          by (rule disjI2, intro exI conjI, rule Some, rule c) (simp only: st mv)
      qed
    qed
  qed
qed

lemma checkedPaths_zip:
  "checkedPaths es = map fst (filter (\<lambda>(p, c). c = Some True) (zip (map path es) (map checkbox es)))"
  by (induction es) (auto simp: checkedPaths_def)

lemma listeners_zip:
  "(\<forall>e \<in> set es. checkbox e \<noteq> None \<longrightarrow> changeListener e) \<longleftrightarrow>
   (\<forall>(c, l) \<in> set (zip (map checkbox es) (map changeListener es)). c \<noteq> None \<longrightarrow> l)"
  by (induction es) auto

lemma mirror_ok_entries:
  assumes "mirror_ok pg" "map checkbox (fileEntries pg') = map checkbox (fileEntries pg)"
    and "searchInput pg' = searchInput pg" "resultsList pg' = resultsList pg"
  shows "mirror_ok pg'"
proof -
  have len: "length (fileEntries pg') = length (fileEntries pg)"
    using assms(2) by (rule map_eq_imp_length_eq)
  have nth: "\<And>k. k < length (fileEntries pg) \<Longrightarrow> checkbox (fileEntries pg' ! k) = checkbox (fileEntries pg ! k)"
    using assms(2) len by (metis nth_map)
  show ?thesis
    using assms(1,3,4) len nth by (auto simp: mirror_ok_def split: option.splits)
qed

text \<open>The invariants read the catalog only through paths, checkbox states and listeners.\<close>

lemma selection_ok_cong:
  assumes "selection_ok pg"
    and "map path (fileEntries pg') = map path (fileEntries pg)"
    and "map checkbox (fileEntries pg') = map checkbox (fileEntries pg)"
    and "map changeListener (fileEntries pg') = map changeListener (fileEntries pg)"
    and "selectedList pg' = selectedList pg" "selectedEntryMap pg' = selectedEntryMap pg"
    and "nextNode pg' = nextNode pg" "searchInput pg' \<noteq> None"
    and "resultsList pg' \<noteq> None" "resultsWrapper pg' \<noteq> None" "inputListener pg'"
    and "mirror_ok pg'"
  shows "selection_ok pg'"
proof -
  have ok: "wired pg" "catalog_ok (fileEntries pg)" "panel_ok pg" "items_linked pg" "toggles_match pg"
    using assms(1) by (simp_all add: selection_ok_def)
  have len: "length (fileEntries pg') = length (fileEntries pg)"
    using assms(2) by (rule map_eq_imp_length_eq)
  have nth: "\<And>k. k < length (fileEntries pg) \<Longrightarrow> path (fileEntries pg' ! k) = path (fileEntries pg ! k)"
    using assms(2) len by (metis nth_map)
  have v: "panelItems pg' = panelItems pg" "panelOrder pg' = panelOrder pg" "panelNodes pg' = panelNodes pg"
    "panelLinks pg' = panelLinks pg"
    by (rule views_cong[OF assms(5)])+
  have w: "wired pg'"
    using ok(1) assms(5,8,9,10,11) listeners_zip[of "fileEntries pg'"] listeners_zip[of "fileEntries pg"] assms(3,4)
    by (simp add: wired_def)
  have c: "catalog_ok (fileEntries pg')" using ok(2) assms(2) by (simp add: catalog_ok_def)
  have k: "panel_ok pg'" using ok(3) v assms(6,7) by (simp add: panel_ok_def)
  have l: "items_linked pg'" using ok(4) v(4) len nth by (auto simp: items_linked_def)
  have t: "toggles_match pg'" using ok(5) v(2) assms(2,3) by (simp add: toggles_match_def checkedPaths_zip)
  show ?thesis using w c k l t assms(12) by (simp add: selection_ok_def)
qed

lemma serialized_cong:
  assumes "orderedInputsContainer pg' = orderedInputsContainer pg" "selectedList pg' = selectedList pg"
  shows "serialized pg' = serialized pg"
  using assms views_cong(2)[OF assms(2)] by (simp add: serialized_def cong: option.case_cong)

lemma setPreviewActive_entries [simp]:
  "map path (setPreviewActive i b es) = map path es"
  "map checkbox (setPreviewActive i b es) = map checkbox es"
  "map changeListener (setPreviewActive i b es) = map changeListener es"
  by (simp_all add: setPreviewActive_def map_update_same)

lemma highlightPreviewEntry_entries [simp]:
  "map path (fileEntries (highlightPreviewEntry p pg)) = map path (fileEntries pg)"
  "map checkbox (fileEntries (highlightPreviewEntry p pg)) = map checkbox (fileEntries pg)"
  "map changeListener (fileEntries (highlightPreviewEntry p pg)) = map changeListener (fileEntries pg)"
  by (simp_all add: highlightPreviewEntry_def Let_def split: option.split)

lemma openPreview_entries_core [simp]:
  "map path (fileEntries (openPreview n s p pg)) = map path (fileEntries pg)"
  "map checkbox (fileEntries (openPreview n s p pg)) = map checkbox (fileEntries pg)"
  "map changeListener (fileEntries (openPreview n s p pg)) = map changeListener (fileEntries pg)"
  using openPreview_entries[of n s p pg] by auto

lemma previewTriggerClick_entries [simp]:
  "map path (fileEntries (previewTriggerClick t pg)) = map path (fileEntries pg)"
  "map checkbox (fileEntries (previewTriggerClick t pg)) = map checkbox (fileEntries pg)"
  "map changeListener (fileEntries (previewTriggerClick t pg)) = map changeListener (fileEntries pg)"
  by (simp_all add: previewTriggerClick_def Let_def split: option.split)

lemma other_events_selection_ok:
  assumes "selection_ok pg"
    and "e = PreviewClick t \<or> e = CloseClick \<or> e = BackdropClick \<or> e = KeyDown key"
  shows "selection_ok (step e pg)"
proof -
  have w: "resultsWrapper pg \<noteq> None" "inputListener pg" "searchInput pg \<noteq> None" "resultsList pg \<noteq> None"
    "mirror_ok pg"
    using assms(1) by (simp_all add: selection_ok_def wired_def)
  have m: "mirror_ok (step e pg)"
    using assms(2) by (auto intro!: mirror_ok_entries[OF w(5)])
  show ?thesis
    using assms(2) w m by (auto intro!: selection_ok_cong[OF assms(1)])
qed

lemma search_events_selection_ok:
  assumes "selection_ok pg" and "e = SearchInput v \<or> e = ClearClick"
  shows "selection_ok (step e pg)"
proof -
  have ok: "wired pg" "mirror_ok pg"
    using assms(1) by (simp_all add: selection_ok_def)
  obtain v0 where v0: "searchInput pg = Some v0" "inputListener pg" "resultsWrapper pg \<noteq> None" "resultsList pg \<noteq> None"
    using ok(1) by (auto simp: wired_def)
  from assms(2) show ?thesis
  proof
    assume e: "e = SearchInput v"
    have s: "step e pg = updateResults (pg\<lparr> searchInput := Some v \<rparr>)" using e v0 by simp
    have m: "mirror_ok (updateResults (pg\<lparr> searchInput := Some v \<rparr>))"
      by (rule mirror_ok_updateResults) simp
    show ?thesis unfolding s
      by (rule selection_ok_cong[OF assms(1)]) (use v0 m in simp_all)
  next
    assume e: "e = ClearClick"
    show ?thesis
    proof (cases "clearButton pg \<and> clearListener pg")
      case False
      then show ?thesis using e assms(1) by auto
    next
      case True
      then have s: "step e pg = clearResults (pg\<lparr> searchInput := Some [] \<rparr>)" using e by simp
      have m: "mirror_ok (clearResults (pg\<lparr> searchInput := Some [] \<rparr>))"
        by (simp add: mirror_ok_def clearResults_def split: option.split)
      show ?thesis unfolding s
        by (rule selection_ok_cong[OF assms(1)]) (use v0 m in simp_all)
    qed
  qed
qed

section \<open>The three ways to toggle\<close>

lemma results_commute:
  "updateSelectedSummary (pg\<lparr> resultsList := R \<rparr>) = (updateSelectedSummary pg)\<lparr> resultsList := R \<rparr>"
  "refreshOrderedInputs (pg\<lparr> resultsList := R \<rparr>) = (refreshOrderedInputs pg)\<lparr> resultsList := R \<rparr>"
  "updateReorderControls (pg\<lparr> resultsList := R \<rparr>) = (updateReorderControls pg)\<lparr> resultsList := R \<rparr>"
  "setChildren ys (pg\<lparr> resultsList := R \<rparr>) = (setChildren ys pg)\<lparr> resultsList := R \<rparr>"
  "setChecked i b (pg\<lparr> resultsList := R \<rparr>) = (setChecked i b pg)\<lparr> resultsList := R \<rparr>"
  by (simp_all add: updateSelectedSummary_def refreshOrderedInputs_def updateReorderControls_def setChildren_def
        setChecked_def Let_def split: option.split)

lemma results_outward:
  "pg\<lparr> resultsList := R, nextNode := n \<rparr> = pg\<lparr> nextNode := n, resultsList := R \<rparr>"
  "pg\<lparr> resultsList := R, selectedEntryMap := m \<rparr> = pg\<lparr> selectedEntryMap := m, resultsList := R \<rparr>"
  by (cases pg; simp)+

lemma refreshAll_results_commute:
  "refreshAll (pg\<lparr> resultsList := R \<rparr>) = (refreshAll pg)\<lparr> resultsList := R \<rparr>"
  by (simp add: refreshAll_def results_commute)

lemma sync_results_commute:
  "syncSelectedEntry i (pg\<lparr> resultsList := R \<rparr>) = (syncSelectedEntry i pg)\<lparr> resultsList := R \<rparr>"
proof (cases "selectedList pg = None \<or> path (fileEntries pg ! i) = [] \<or> checkbox (fileEntries pg ! i) = None")
  case True
  then have "selectedList (pg\<lparr> resultsList := R \<rparr>) = None \<or> path (fileEntries (pg\<lparr> resultsList := R \<rparr>) ! i) = []
      \<or> checkbox (fileEntries (pg\<lparr> resultsList := R \<rparr>) ! i) = None" by simp
  then have "syncSelectedEntry i (pg\<lparr> resultsList := R \<rparr>) = pg\<lparr> resultsList := R \<rparr>"
    using syncSelectedEntry_skip[of "pg\<lparr> resultsList := R \<rparr>" i] by blast
  moreover have "syncSelectedEntry i pg = pg" using True syncSelectedEntry_skip[of pg i] by blast
  ultimately show ?thesis by simp
next
  case False
  then obtain sl c where h: "selectedList pg = Some sl" "path (fileEntries pg ! i) \<noteq> []"
    "checkbox (fileEntries pg ! i) = Some c" by auto
  have h': "selectedList (pg\<lparr> resultsList := R \<rparr>) = Some sl" "path (fileEntries (pg\<lparr> resultsList := R \<rparr>) ! i) \<noteq> []"
    "checkbox (fileEntries (pg\<lparr> resultsList := R \<rparr>) ! i) = Some c" using h by simp_all
  show ?thesis
    unfolding syncSelectedEntry_unfold[OF h] syncSelectedEntry_unfold[OF h']
    by (simp add: refreshAll_results_commute results_commute results_outward split: option.split)
qed


lemma updateResults_overwrites:
  assumes "searchInput pg = Some v" "trim v \<noteq> []" "resultsList pg = Some rl" 
  shows "updateResults (pg\<lparr> resultsList := Some rl' \<rparr>) = updateResults pg"
proof -
  have q: "toLowerCase (trim v) \<noteq> []" using assms(2) by (simp add: toLowerCase_def)
  have r: "\<And>X Y. rl'\<lparr> resultItems := X, listHidden := Y \<rparr> = rl\<lparr> resultItems := X, listHidden := Y \<rparr>"
    by (cases rl; cases rl'; simp)
  show ?thesis using assms(1,3) q
    by (simp add: updateResults_def Let_def r)
qed

lemma dispatchChange_ignores_results:
  assumes "changeListener (fileEntries pg ! i)" "searchInput pg = Some v" "trim v \<noteq> []"
    and "resultsList pg = Some rl"
  shows "dispatchChange i (pg\<lparr> resultsList := Some rl' \<rparr>) = dispatchChange i pg"
proof -
  have "dispatchChange i (pg\<lparr> resultsList := Some rl' \<rparr>) = updateResults ((syncSelectedEntry i pg)\<lparr> resultsList := Some rl' \<rparr>)"
    using assms(1,2,3) by (simp add: dispatchChange_def Let_def sync_results_commute)
  also have "\<dots> = updateResults (syncSelectedEntry i pg)"
    by (rule updateResults_overwrites[where v = v and rl = rl]) (simp_all add: assms)
  also have "\<dots> = dispatchChange i pg"
    using assms(1,2,3) by (simp add: dispatchChange_def Let_def)
  finally show ?thesis .
qed

lemma mirror_toggle_is_native:
  assumes "selection_ok pg" "resultsList pg = Some rl" "k < length (resultItems rl)"
    and "checkbox (fileEntries pg ! resultEntry (resultItems rl ! k)) \<noteq> None"
  shows "step (MirrorToggle k) pg = step (NativeToggle (resultEntry (resultItems rl ! k))) pg"
proof -
  define r where "r = resultItems rl ! k"
  define i where "i = resultEntry r"
  obtain c where c: "checkbox (fileEntries pg ! i) = Some c" using assms(4) by (auto simp: i_def r_def)
  have ok: "wired pg" "mirror_ok pg" using assms(1) by (simp_all add: selection_ok_def)
  have rin: "r \<in> set (resultItems rl)" using assms(3) by (simp add: r_def)
  have il: "i < length (fileEntries pg)" and mc: "mirrorChecked r = c"
    using ok(2) assms(2) rin c by (auto simp: mirror_ok_def i_def)
  obtain v where v: "searchInput pg = Some v" "trim v \<noteq> []"
    using ok(2) assms(2) rin by (auto simp: mirror_ok_def split: option.splits)
  have cl: "changeListener (fileEntries pg ! i)"
    using ok(1) il c nth_mem[OF il] by (auto simp: wired_def)
  let ?rl' = "rl\<lparr> resultItems := (resultItems rl)[k := r\<lparr> mirrorChecked := \<not> mirrorChecked r \<rparr>] \<rparr>"
  have f: "flipMirror k pg = pg\<lparr> resultsList := Some ?rl' \<rparr>"
    using assms(2) by (simp add: flipMirror_def r_def)
  have "step (MirrorToggle k) pg = mirrorChange (r\<lparr> mirrorChecked := \<not> mirrorChecked r \<rparr>) (pg\<lparr> resultsList := Some ?rl' \<rparr>)"
    using assms(2,3) unfolding f[symmetric] by (simp add: r_def)
  also have "\<dots> = dispatchChange i ((setChecked i (\<not> c) pg)\<lparr> resultsList := Some ?rl' \<rparr>)"
    using c mc by (simp add: mirrorChange_def i_def results_commute)
  also have "\<dots> = dispatchChange i (setChecked i (\<not> c) pg)"
    by (rule dispatchChange_ignores_results[where v = v and rl = rl])
       (use cl il v assms(2) in \<open>simp_all add: setChecked_def\<close>)
  also have "\<dots> = step (NativeToggle i) pg"
    using il c by simp
  finally show ?thesis by (simp add: i_def r_def)
qed

lemma selected_item_is_checked:
  assumes "selection_ok pg" "selectedList pg = Some sl" "j < length (children sl)"
  shows "itemEntry (children sl ! j) < length (fileEntries pg) \<and>
         checkbox (fileEntries pg ! itemEntry (children sl ! j)) = Some True"
proof -
  define it where "it = children sl ! j"
  have ok: "catalog_ok (fileEntries pg)" "items_linked pg" "toggles_match pg"
    using assms(1) by (simp_all add: selection_ok_def)
  have "it \<in> set (panelItems pg)" using assms(2,3) by (simp add: panelItems_def it_def)
  then have l: "(itemEntry it, selectedVideoItem it) \<in> set (panelLinks pg)"
    by (auto simp: panelLinks_def)
  then have i: "itemEntry it < length (fileEntries pg)" "path (fileEntries pg ! itemEntry it) = selectedVideoItem it"
    using ok(2) by (auto simp: items_linked_def)
  have "selectedVideoItem it \<in> set (panelOrder pg)" using l by (force simp: panelOrder_links)
  then have "selectedVideoItem it \<in> set (checkedPaths (fileEntries pg))"
    using ok(3) by (simp add: toggles_match_def)
  then obtain k where k: "k < length (fileEntries pg)" "path (fileEntries pg ! k) = selectedVideoItem it"
    "checkbox (fileEntries pg ! k) = Some True"
    unfolding checkedPaths_set by auto
  have "k = itemEntry it" using catalog_index[OF ok(1) k(1) i(1)] k(2) i(2) by simp
  then show ?thesis using i(1) k(3) by (simp add: it_def)
qed

lemma remove_click_is_native:
  assumes "selection_ok pg" "selectedList pg = Some sl" "j < length (children sl)"
  shows "step (RemoveClick j) pg = step (NativeToggle (itemEntry (children sl ! j))) pg"
  using assms(2,3) selected_item_is_checked[OF assms]
  by (simp add: removeClick_def)


section \<open>Every event keeps the page consistent\<close>

lemma native_toggle_selection_ok:
  assumes "selection_ok pg"
  shows "selection_ok (step (NativeToggle i) pg)"
proof (cases "i < length (fileEntries pg) \<and> checkbox (fileEntries pg ! i) \<noteq> None")
  case True
  then obtain c where "checkbox (fileEntries pg ! i) = Some c" by auto
  then show ?thesis using True toggle_selection_ok[OF assms, of i "\<not> c"] by simp
next
  case False
  then show ?thesis using assms by (auto split: option.split)
qed

lemma flipMirror_selection_ok:
  assumes "selection_ok pg" "resultsList pg = Some rl" "k < length (resultItems rl)"
    and "checkbox (fileEntries pg ! resultEntry (resultItems rl ! k)) = None"
  shows "selection_ok (flipMirror k pg)"
proof -
  have ok: "wired pg" "mirror_ok pg" using assms(1) by (simp_all add: selection_ok_def)
  let ?r = "(resultItems rl ! k)\<lparr> mirrorChecked := \<not> mirrorChecked (resultItems rl ! k) \<rparr>"
  have f: "resultsList (flipMirror k pg) = Some (rl\<lparr> resultItems := (resultItems rl)[k := ?r] \<rparr>)"
    using assms(2) by (simp add: flipMirror_def)
  have old: "\<forall>r \<in> set (resultItems rl). resultEntry r < length (fileEntries pg) \<and>
             (case checkbox (fileEntries pg ! resultEntry r) of None \<Rightarrow> True | Some c \<Rightarrow> mirrorChecked r = c)"
    and q: "resultItems rl = [] \<or> (case searchInput pg of None \<Rightarrow> False | Some v \<Rightarrow> trim v \<noteq> [])"
    using ok(2) assms(2) by (simp_all add: mirror_ok_def)
  have "resultItems rl ! k \<in> set (resultItems rl)" using assms(3) by simp
  then have new: "resultEntry ?r < length (fileEntries pg) \<and>
             (case checkbox (fileEntries pg ! resultEntry ?r) of None \<Rightarrow> True | Some c \<Rightarrow> mirrorChecked ?r = c)"
    using old assms(4) by simp
  have "set ((resultItems rl)[k := ?r]) \<subseteq> insert ?r (set (resultItems rl))"
    by (rule set_update_subset_insert)
  then have all: "\<forall>r \<in> set ((resultItems rl)[k := ?r]). resultEntry r < length (fileEntries pg) \<and>
             (case checkbox (fileEntries pg ! resultEntry r) of None \<Rightarrow> True | Some c \<Rightarrow> mirrorChecked r = c)"
    using old new by blast
  have ne: "(resultItems rl)[k := ?r] = [] \<or> (case searchInput pg of None \<Rightarrow> False | Some v \<Rightarrow> trim v \<noteq> [])"
    using q assms(3) by auto
  have m: "mirror_ok (flipMirror k pg)"
    unfolding mirror_ok_def f using all ne by simp
  show ?thesis
    by (rule selection_ok_cong[OF assms(1)]) (use ok(1) m f in \<open>simp_all add: wired_def\<close>)
qed

lemma mirror_toggle_selection_ok:
  assumes "selection_ok pg"
  shows "selection_ok (step (MirrorToggle k) pg)"
proof (cases "resultsList pg")
  case None
  then show ?thesis using assms by simp
next
  case (Some rl)
  show ?thesis
  proof (cases "k < length (resultItems rl)")
    case False
    then show ?thesis using assms Some by simp
  next
    case True
    show ?thesis
    proof (cases "checkbox (fileEntries pg ! resultEntry (resultItems rl ! k))")
      case None
      then have "step (MirrorToggle k) pg = flipMirror k pg"
        using Some True by (simp add: mirrorChange_def flipMirror_def)
      then show ?thesis using flipMirror_selection_ok[OF assms Some True None] by simp
    next
      case (Some c)
      then have "checkbox (fileEntries pg ! resultEntry (resultItems rl ! k)) \<noteq> None" by simp
      from mirror_toggle_is_native[OF assms \<open>resultsList pg = Some rl\<close> True this]
      show ?thesis using native_toggle_selection_ok[OF assms] by simp
    qed
  qed
qed

lemma remove_click_selection_ok:
  assumes "selection_ok pg"
  shows "selection_ok (step (RemoveClick j) pg)"
proof (cases "selectedList pg")
  case None
  then show ?thesis using assms by simp
next
  case (Some sl)
  show ?thesis
  proof (cases "j < length (children sl)")
    case False
    then show ?thesis using assms Some by simp
  next
    case True
    show ?thesis
      unfolding remove_click_is_native[OF assms Some True] by (rule native_toggle_selection_ok[OF assms])
  qed
qed

lemma move_click_selection_ok:
  assumes "selection_ok pg" "e = MoveUpClick k \<or> e = MoveDownClick k"
  shows "selection_ok (step e pg)"
proof -
  have k: "panel_ok pg" using assms(1) by (simp add: selection_ok_def)
  from move_click_shape[OF k assms(2)] show ?thesis
  proof
    assume "step e pg = pg"
    then show ?thesis using assms(1) by simp
  next
    assume "\<exists>sl as a b bs. selectedList pg = Some sl \<and> children sl = as @ a # b # bs \<and>
            step e pg = refreshAll (setChildren (as @ b # a # bs) pg)"
    then obtain sl as a b bs where s: "selectedList pg = Some sl" "children sl = as @ a # b # bs"
      "step e pg = refreshAll (setChildren (as @ b # a # bs) pg)" by blast
    have d: "distinct (map nodeId (as @ a # b # bs))" "distinct (map selectedVideoItem (as @ a # b # bs))"
      using k s(1) unfolding panel_ok_def panelNodes_def panelOrder_def panelItems_def s(2)[symmetric] by simp_all
    show ?thesis unfolding s(3)
      by (rule rearranged_selection_ok[OF assms(1) s(1)]) (use d in \<open>auto simp: s(2)\<close>)
  qed
qed

lemma step_selection_ok:
  assumes "selection_ok pg"
  shows "selection_ok (step e pg)"
proof (cases e)
  case (NativeToggle i)
  then show ?thesis using native_toggle_selection_ok[OF assms] by simp
next
  case (MirrorToggle k)
  then show ?thesis using mirror_toggle_selection_ok[OF assms] by simp
next
  case (RemoveClick j)
  then show ?thesis using remove_click_selection_ok[OF assms] by simp
next
  case (MoveUpClick k)
  then show ?thesis using move_click_selection_ok[OF assms] by blast
next
  case (MoveDownClick k)
  then show ?thesis using move_click_selection_ok[OF assms] by blast
next
  case (SearchInput v)
  then show ?thesis using search_events_selection_ok[OF assms] by blast
next
  case ClearClick
  then show ?thesis using search_events_selection_ok[OF assms] by blast
next
  case (PreviewClick t)
  then show ?thesis using other_events_selection_ok[OF assms] by blast
next
  case CloseClick
  then show ?thesis using other_events_selection_ok[OF assms] by blast
next
  case BackdropClick
  then show ?thesis using other_events_selection_ok[OF assms] by blast
next
  case (KeyDown key)
  then show ?thesis using other_events_selection_ok[OF assms] by blast
qed

lemma run_selection_ok:
  assumes "selection_ok pg"
  shows "selection_ok (run evs pg)"
  using assms
proof (induction evs arbitrary: pg)
  case Nil
  then show ?case by (simp add: run_def)
next
  case (Cons e evs)
  have "run (e # evs) pg = run evs (step e pg)" by (simp add: run_def)
  then show ?case using Cons step_selection_ok by simp
qed

section \<open>The hidden fields\<close>

lemma syncSelectedEntry_stable:
  assumes "panel_ok pg"
  shows "refreshAll (syncSelectedEntry i pg) = syncSelectedEntry i pg
         \<or> (syncSelectedEntry i pg = pg \<and>
             (selectedList pg = None \<or> path (fileEntries pg ! i) = [] \<or> checkbox (fileEntries pg ! i) = None))"
proof (cases "selectedList pg = None \<or> path (fileEntries pg ! i) = [] \<or> checkbox (fileEntries pg ! i) = None")
  case True
  then show ?thesis using syncSelectedEntry_skip[of pg i] by auto
next
  case False
  then obtain sl c where h: "selectedList pg = Some sl" "path (fileEntries pg ! i) \<noteq> []"
    "checkbox (fileEntries pg ! i) = Some c" by auto
  have "refreshAll (syncSelectedEntry i pg) = syncSelectedEntry i pg"
  proof (cases "c \<longleftrightarrow> path (fileEntries pg ! i) \<in> set (panelOrder pg)")
    case True
    show ?thesis unfolding syncSelectedEntry_same[OF assms h True] by simp
  next
    case False
    show ?thesis
    proof (cases c)
      case True
      with False have a': "checkbox (fileEntries pg ! i) = Some True" "path (fileEntries pg ! i) \<notin> set (panelOrder pg)"
        using h by auto
      show ?thesis unfolding syncSelectedEntry_add[OF assms h(1,2) a'] by simp
    next
      case c: False
      with False have a': "checkbox (fileEntries pg ! i) = Some False" "path (fileEntries pg ! i) \<in> set (panelOrder pg)"
        using h by auto
      show ?thesis unfolding syncSelectedEntry_remove[OF assms h(1,2) a'] by simp
    qed
  qed
  then show ?thesis by simp
qed

lemma refreshAll_presence [simp]:
  "orderedInputsContainer (refreshAll pg) = None \<longleftrightarrow> orderedInputsContainer pg = None"
  by (simp add: orderedInputs_refreshAll)

lemma syncSelectedEntry_presence [simp]:
  "orderedInputsContainer (syncSelectedEntry i pg) = None \<longleftrightarrow> orderedInputsContainer pg = None"
proof (cases "selectedList pg = None \<or> path (fileEntries pg ! i) = [] \<or> checkbox (fileEntries pg ! i) = None")
  case True
  then show ?thesis using syncSelectedEntry_skip[of pg i] by auto
next
  case False
  then obtain sl c where h: "selectedList pg = Some sl" "path (fileEntries pg ! i) \<noteq> []"
    "checkbox (fileEntries pg ! i) = Some c" by auto
  show ?thesis unfolding syncSelectedEntry_unfold[OF h] by (simp split: option.split)
qed

lemma dispatchChange_selection_fields:
  "selectedList (dispatchChange i pg) = selectedList pg \<and> orderedInputsContainer (dispatchChange i pg) = orderedInputsContainer pg
   \<or> selectedList (dispatchChange i pg) = selectedList (syncSelectedEntry i pg)
      \<and> orderedInputsContainer (dispatchChange i pg) = orderedInputsContainer (syncSelectedEntry i pg)"
  by (simp add: dispatchChange_def Let_def split: option.split)

lemma toggle_serialized:
  assumes "selection_ok pg" "serialized pg" "i < length (fileEntries pg)" "checkbox (fileEntries pg ! i) \<noteq> None"
  shows "serialized (dispatchChange i (setChecked i b pg))"
proof -
  define pg1 where "pg1 = setChecked i b pg"
  define pg2 where "pg2 = syncSelectedEntry i pg1"
  define pg3 where "pg3 = dispatchChange i pg1"
  have ok3: "selection_ok pg3" unfolding pg3_def pg1_def by (rule toggle_selection_ok[OF assms(1,3,4)])
  have ok: "wired pg" "catalog_ok (fileEntries pg)" "panel_ok pg"
    using assms(1) by (simp_all add: selection_ok_def)
  have k1: "panel_ok pg1" unfolding pg1_def using ok(3) by simp
  have cl: "changeListener (fileEntries pg1 ! i)"
    using wired_setChecked[OF ok(1) assms(3,4), of b] assms(3) nth_mem[of i "fileEntries pg1"]
    unfolding pg1_def by (auto simp: wired_def setChecked_nth)
  have f: "selectedList pg3 = selectedList pg2" "orderedInputsContainer pg3 = orderedInputsContainer pg2"
    "fileEntries pg3 = fileEntries pg2"
    unfolding pg3_def pg2_def using cl by (simp_all add: dispatchChange_def Let_def split: option.split)
  have s: "serialized pg3 = serialized pg2" by (rule serialized_cong[OF f(2,1)])
  have l2: "items_linked pg2" "catalog_ok (fileEntries pg2)"
    using ok3 f views_cong(4)[OF f(1)] by (simp_all add: selection_ok_def items_linked_def)
  have n1: "selectedList pg1 \<noteq> None" "path (fileEntries pg1 ! i) \<noteq> []" "checkbox (fileEntries pg1 ! i) \<noteq> None"
  proof -
    show "selectedList pg1 \<noteq> None" unfolding pg1_def using ok(1) by (simp add: wired_def)
    have "path (fileEntries pg ! i) \<in> path ` set (fileEntries pg)"
      using assms(3) by (intro imageI nth_mem)
    then have "path (fileEntries pg ! i) \<noteq> []" using ok(2) by (auto simp: catalog_ok_def)
    then show "path (fileEntries pg1 ! i) \<noteq> []" unfolding pg1_def using assms(3) by (simp add: setChecked_nth)
    show "checkbox (fileEntries pg1 ! i) \<noteq> None" unfolding pg1_def using assms(3) by (simp add: setChecked_nth)
  qed
  have st: "refreshAll pg2 = pg2"
    using syncSelectedEntry_stable[OF k1, of i] n1 unfolding pg2_def by auto
  have n2: "selectedList pg2 \<noteq> None" unfolding pg2_def using n1(1) by simp
  have "serialized (refreshAll pg2)"
    by (rule serialized_refreshAll) (use l2 n2 st in simp_all)
  then show ?thesis using s st unfolding pg3_def pg1_def by simp
qed


lemma native_toggle_serialized:
  assumes "selection_ok pg" "serialized pg"
  shows "serialized (step (NativeToggle i) pg)"
proof (cases "i < length (fileEntries pg) \<and> checkbox (fileEntries pg ! i) \<noteq> None")
  case True
  then obtain c where "checkbox (fileEntries pg ! i) = Some c" by auto
  then show ?thesis using True toggle_serialized[OF assms, of i "\<not> c"] by simp
next
  case False
  then show ?thesis using assms(2) by (auto split: option.split)
qed

lemma move_click_serialized:
  assumes "selection_ok pg" "serialized pg" "e = MoveUpClick k \<or> e = MoveDownClick k"
  shows "serialized (step e pg)"
proof -
  have ok: "selection_ok (step e pg)" by (rule step_selection_ok[OF assms(1)])
  have k: "panel_ok pg" using assms(1) by (simp add: selection_ok_def)
  from move_click_shape[OF k assms(3)] show ?thesis
  proof
    assume "step e pg = pg"
    then show ?thesis using assms(2) by simp
  next
    assume "\<exists>sl as a b bs. selectedList pg = Some sl \<and> children sl = as @ a # b # bs \<and>
            step e pg = refreshAll (setChildren (as @ b # a # bs) pg)"
    then obtain sl as a b bs where s: "selectedList pg = Some sl"
      "step e pg = refreshAll (setChildren (as @ b # a # bs) pg)" by blast
    show ?thesis unfolding s(2)
      by (rule serialized_refreshAll) (use ok s in \<open>simp_all add: selection_ok_def\<close>)
  qed
qed

lemma step_serialized:
  assumes "selection_ok pg" "serialized pg"
  shows "serialized (step e pg)"
proof (cases e)
  case (NativeToggle i)
  then show ?thesis using native_toggle_serialized[OF assms] by simp
next
  case (MirrorToggle k)
  show ?thesis
  proof (cases "resultsList pg")
    case None
    then show ?thesis using assms(2) MirrorToggle by simp
  next
    case (Some rl)
    show ?thesis
    proof (cases "k < length (resultItems rl)")
      case False
      then show ?thesis using assms(2) Some MirrorToggle by simp
    next
      case True
      show ?thesis
      proof (cases "checkbox (fileEntries pg ! resultEntry (resultItems rl ! k))")
        case None
        then have "step (MirrorToggle k) pg = flipMirror k pg"
          using Some True by (simp add: mirrorChange_def flipMirror_def)
        then show ?thesis using assms(2) MirrorToggle serialized_cong[of "flipMirror k pg" pg] by simp
      next
        case c: (Some c)
        then have "checkbox (fileEntries pg ! resultEntry (resultItems rl ! k)) \<noteq> None" by simp
        from mirror_toggle_is_native[OF assms(1) Some True this]
        show ?thesis using native_toggle_serialized[OF assms] MirrorToggle by simp
      qed
    qed
  qed
next
  case (RemoveClick j)
  show ?thesis
  proof (cases "selectedList pg")
    case None
    then show ?thesis using assms(2) RemoveClick by simp
  next
    case (Some sl)
    show ?thesis
    proof (cases "j < length (children sl)")
      case False
      then show ?thesis using assms(2) Some RemoveClick by simp
    next
      case True
      show ?thesis
        unfolding RemoveClick remove_click_is_native[OF assms(1) Some True]
        by (rule native_toggle_serialized[OF assms])
    qed
  qed
next
  case (MoveUpClick k)
  then show ?thesis using move_click_serialized[OF assms] by blast
next
  case (MoveDownClick k)
  then show ?thesis using move_click_serialized[OF assms] by blast
next
  case (SearchInput v)
  then show ?thesis using assms(2)
    by (auto split: option.split intro: serialized_cong[THEN iffD2])
next
  case ClearClick
  then show ?thesis using assms(2)
    by (auto intro: serialized_cong[THEN iffD2])
next
  case (PreviewClick t)
  then show ?thesis using assms(2)
    by (auto intro: serialized_cong[THEN iffD2])
next
  case CloseClick
  then show ?thesis using assms(2)
    by (auto intro: serialized_cong[THEN iffD2])
next
  case BackdropClick
  then show ?thesis using assms(2)
    by (auto intro: serialized_cong[THEN iffD2])
next
  case (KeyDown key)
  then show ?thesis using assms(2)
    by (auto intro: serialized_cong[THEN iffD2])
qed

lemma run_serialized:
  assumes "selection_ok pg" "serialized pg"
  shows "serialized (run evs pg)"
  using assms
proof (induction evs arbitrary: pg)
  case Nil
  then show ?case by (simp add: run_def)
next
  case (Cons e evs)
  have "run (e # evs) pg = run evs (step e pg)" by (simp add: run_def)
  then show ?case using Cons step_selection_ok step_serialized by simp
qed

lemma step_presence:
  "orderedInputsContainer (step e pg) = None \<longleftrightarrow> orderedInputsContainer pg = None"
proof (cases e)
  case (NativeToggle i)
  then show ?thesis by (simp add: dispatchChange_def Let_def split: option.split)
next
  case (MirrorToggle k)
  then show ?thesis by (simp add: mirrorChange_def dispatchChange_def Let_def split: option.split)
next
  case (RemoveClick j)
  then show ?thesis by (simp add: removeClick_def dispatchChange_def Let_def split: option.split)
next
  case (MoveUpClick k)
  then show ?thesis by (simp add: moveSelectedItem_def refresh_order split: option.split)
next
  case (MoveDownClick k)
  then show ?thesis by (simp add: moveSelectedItem_def refresh_order split: option.split)
qed (simp_all split: option.split)

lemma run_presence:
  "orderedInputsContainer (run evs pg) = None \<longleftrightarrow> orderedInputsContainer pg = None"
proof (induction evs arbitrary: pg)
  case Nil
  then show ?case by (simp add: run_def)
next
  case (Cons e evs)
  have "run (e # evs) pg = run evs (step e pg)" by (simp add: run_def)
  then show ?case using Cons step_presence by simp
qed

section \<open>Loading the page\<close>

lemma wireEntry_frame [simp]:
  "playlistEditor (wireEntry pg k) = playlistEditor pg"
  "searchInput (wireEntry pg k) = searchInput pg"
  "inputListener (wireEntry pg k) = inputListener pg"
  "clearButton (wireEntry pg k) = clearButton pg"
  "clearListener (wireEntry pg k) = clearListener pg"
  "resultsWrapper (wireEntry pg k) = resultsWrapper pg"
  "resultsList (wireEntry pg k) = resultsList pg"
  "noResultsAlert (wireEntry pg k) = noResultsAlert pg"
  "previewModal (wireEntry pg k) = previewModal pg"
  "bodyOverflowHidden (wireEntry pg k) = bodyOverflowHidden pg"
  "activePreviewEntry (wireEntry pg k) = activePreviewEntry pg"
  "previewListeners (wireEntry pg k) = previewListeners pg"
  "orderedInputsContainer (wireEntry pg k) = None \<longleftrightarrow> orderedInputsContainer pg = None"
  by (simp_all add: wireEntry_def split: option.split)

lemma wire_loop_frame:
  "searchInput (foldl wireEntry pg ks) = searchInput pg
   \<and> inputListener (foldl wireEntry pg ks) = inputListener pg
   \<and> clearButton (foldl wireEntry pg ks) = clearButton pg
   \<and> resultsWrapper (foldl wireEntry pg ks) = resultsWrapper pg
   \<and> resultsList (foldl wireEntry pg ks) = resultsList pg
   \<and> (orderedInputsContainer (foldl wireEntry pg ks) = None \<longleftrightarrow> orderedInputsContainer pg = None)"
  by (induction ks arbitrary: pg) simp_all

lemma nth_notin_take:
  assumes "distinct xs" "k < length xs"
  shows "xs ! k \<notin> set (take k xs)"
proof -
  have "distinct (take k xs @ xs ! k # drop (Suc k) xs)"
    using assms id_take_nth_drop[OF assms(2)] by metis
  then show ?thesis by simp
qed

lemma checkedPaths_take_Suc:
  assumes "k < length es"
  shows "checkedPaths (take (Suc k) es) =
           checkedPaths (take k es) @ (if checkbox (es ! k) = Some True then [path (es ! k)] else [])"
  using assms by (simp add: take_Suc_conv_app_nth checkedPaths_def)

lemma items_linked_entries:
  assumes "items_linked pg" "map path (fileEntries pg') = map path (fileEntries pg)" "panelLinks pg' = panelLinks pg"
  shows "items_linked pg'"
proof -
  have len: "length (fileEntries pg') = length (fileEntries pg)"
    using assms(2) by (rule map_eq_imp_length_eq)
  have nth: "\<And>k. k < length (fileEntries pg) \<Longrightarrow> path (fileEntries pg' ! k) = path (fileEntries pg ! k)"
    using assms(2) len by (metis nth_map)
  show ?thesis using assms(1,3) len nth by (auto simp: items_linked_def)
qed

lemma wireEntry_upto:
  assumes "wired_upto k es0 pg" "catalog_ok es0" "k < length es0"
  shows "wired_upto (Suc k) es0 (wireEntry pg k)"
proof -
  let ?es = "fileEntries pg"
  have J: "panel_ok pg" "items_linked pg" "selectedList pg \<noteq> None" "map path ?es = map path es0"
    "map checkbox ?es = map checkbox es0" "set (panelOrder pg) = set (checkedPaths (take k es0))"
    "\<forall>j \<in> set [0..<k]. checkbox (es0 ! j) \<noteq> None \<longrightarrow> changeListener (?es ! j)"
    using assms(1) unfolding wired_upto_def by blast+
  have len: "length ?es = length es0" using J(4) by (rule map_eq_imp_length_eq)
  have pk: "path (?es ! k) = path (es0 ! k)" using J(4) len assms(3) by (metis nth_map)
  have ck: "checkbox (?es ! k) = checkbox (es0 ! k)" using J(5) len assms(3) by (metis nth_map)
  have tk: "checkedPaths (take (Suc k) es0) =
           checkedPaths (take k es0) @ (if checkbox (es0 ! k) = Some True then [path (es0 ! k)] else [])"
    by (rule checkedPaths_take_Suc[OF assms(3)])
  show ?thesis
  proof (cases "checkbox (?es ! k)")
    case None
    then have w: "wireEntry pg k = pg" by (simp add: wireEntry_def)
    have "\<forall>j \<in> set [0..<Suc k]. checkbox (es0 ! j) \<noteq> None \<longrightarrow> changeListener (?es ! j)"
      using J(7) None ck by (auto simp: less_Suc_eq)
    then show ?thesis unfolding w wired_upto_def using J tk None ck by simp
  next
    case (Some c)
    define esw where "esw = ?es[k := (?es ! k)\<lparr> changeListener := True \<rparr>]"
    define pgw where "pgw = pg\<lparr> fileEntries := esw \<rparr>"
    have w: "wireEntry pg k = syncSelectedEntry k pgw"
      using Some by (simp add: wireEntry_def pgw_def esw_def)
    have ew: "map path esw = map path ?es" "map checkbox esw = map checkbox ?es" "length esw = length ?es"
      "esw ! k = (?es ! k)\<lparr> changeListener := True \<rparr>"
      "\<And>j. j \<noteq> k \<Longrightarrow> esw ! j = ?es ! j"
      unfolding esw_def using assms(3) len by (simp_all add: map_update_same)
    have kw: "panel_ok pgw" unfolding pgw_def using J(1) by (simp add: panel_ok_def panelNodes_def)
    have lw: "items_linked pgw"
      by (rule items_linked_entries[OF J(2)]) (simp_all add: pgw_def ew)
    obtain sl where sl: "selectedList pgw = Some sl" using J(3) by (auto simp: pgw_def)
    have "path (es0 ! k) \<in> set (map path es0)" using assms(3) by simp
    then have p: "path (es0 ! k) \<noteq> []" using assms(2) unfolding catalog_ok_def by metis
    have pw: "path (fileEntries pgw ! k) = path (es0 ! k)" "checkbox (fileEntries pgw ! k) = Some c"
      "k < length (fileEntries pgw)"
      using pk Some assms(3) len by (simp_all add: pgw_def ew)
    have k': "panel_ok (syncSelectedEntry k pgw)" by (rule panel_ok_syncSelectedEntry[OF kw])
    have l': "items_linked (syncSelectedEntry k pgw)" by (rule items_linked_sync[OF lw kw pw(3)])
    have n': "selectedList (syncSelectedEntry k pgw) \<noteq> None" using sl by simp
    have f': "fileEntries (syncSelectedEntry k pgw) = esw" by (simp add: pgw_def)
    have o': "panelOrder (syncSelectedEntry k pgw) =
           (if c then (if path (es0 ! k) \<in> set (panelOrder pgw) then panelOrder pgw else panelOrder pgw @ [path (es0 ! k)])
            else removeAll (path (es0 ! k)) (panelOrder pgw))"
      by (rule syncSelectedEntry_order[OF kw sl pw(1) p pw(2)])
    have ow: "panelOrder pgw = panelOrder pg" by (simp add: pgw_def)
    have "distinct (map path es0)" using assms(2) by (simp add: catalog_ok_def)
    then have "map path es0 ! k \<notin> set (take k (map path es0))"
      using assms(3) by (intro nth_notin_take) simp_all
    then have "path (es0 ! k) \<notin> set (map path (take k es0))"
      using assms(3) by (simp add: take_map)
    then have fresh: "path (es0 ! k) \<notin> set (checkedPaths (take k es0))"
      using checkedPaths_subset by blast
    have s': "set (panelOrder (syncSelectedEntry k pgw)) = set (checkedPaths (take (Suc k) es0))"
      unfolding o' ow tk using J(6) fresh Some ck by (cases c) auto
    have ls: "\<forall>j \<in> set [0..<Suc k]. checkbox (es0 ! j) \<noteq> None \<longrightarrow> changeListener (esw ! j)"
    proof
      fix j assume "j \<in> set [0..<Suc k]"
      then consider "j = k" | "j \<in> set [0..<k]" "j \<noteq> k" by (auto simp: less_Suc_eq)
      then show "checkbox (es0 ! j) \<noteq> None \<longrightarrow> changeListener (esw ! j)"
      proof cases
        case 1
        then show ?thesis by (simp add: ew(4))
      next
        case 2
        then show ?thesis using J(7) ew(5) by simp
      qed
    qed
    show ?thesis
      unfolding w wired_upto_def f'
      using k' l' n' s' ls ew(1,2) J(4,5) by simp
  qed
qed

lemma wire_loop:
  assumes "wired_upto 0 es0 pg" "catalog_ok es0" "n \<le> length es0"
  shows "wired_upto n es0 (foldl wireEntry pg [0..<n])"
  using assms(3)
proof (induction n)
  case 0
  then show ?case using assms(1) by simp
next
  case (Suc n)
  then have "wired_upto n es0 (foldl wireEntry pg [0..<n])" by simp
  from wireEntry_upto[OF this assms(2)] Suc(2) show ?case by simp
qed


lemma applyInitialOrder_shape:
  assumes "selectedList pg = Some sl" "distinct (map nodeId (children sl))" "distinct (map selectedVideoItem (children sl))"
    and "applyInitialOrder order pg = Inr pg'"
  shows "\<exists>ys. set ys = set (children sl) \<and> distinct (map nodeId ys) \<and> distinct (map selectedVideoItem ys) \<and>
              pg' = refreshAll (setChildren ys pg)"
proof (cases "js_length order")
  case (Inl e)
  then show ?thesis using assms(1,4) by (simp add: applyInitialOrder_def)
next
  case (Inr len)
  show ?thesis
  proof (cases "len = Some (JNum 0)")
    case True
    then have "pg' = refreshAll pg"
      using assms(1,4) Inr by (simp add: applyInitialOrder_def refresh_order)
    then have "pg' = refreshAll (setChildren (children sl) pg)"
      using setChildren_same[OF assms(1)] by simp
    then show ?thesis using assms(2,3) by blast
  next
    case False
    show ?thesis
    proof (cases "js_forEach order")
      case (Inl e)
      then show ?thesis using assms(1,4) Inr False by (simp add: applyInitialOrder_def)
    next
      case r: (Inr paths)
      then have "pg' = refreshAll (setChildren (foldl (appendListed (children sl)) (children sl) paths) pg)"
        using assms(1,4) Inr False by (simp add: applyInitialOrder_def refresh_order)
      then show ?thesis using moveToEnd_fold[OF assms(2,3), of paths] by blast
    qed
  qed
qed

lemma applyInitialOrder_selection_ok:
  assumes "selection_ok pg" "applyInitialOrder order pg = Inr pg'"
  shows "selection_ok pg' \<and> serialized pg' \<and> clearButton pg' = clearButton pg
         \<and> (orderedInputsContainer pg' = None \<longleftrightarrow> orderedInputsContainer pg = None)"
proof -
  have ok: "wired pg" "panel_ok pg" "catalog_ok (fileEntries pg)" using assms(1) by (simp_all add: selection_ok_def)
  obtain sl where sl: "selectedList pg = Some sl" using ok(1) by (auto simp: wired_def)
  have d: "distinct (map nodeId (children sl))" "distinct (map selectedVideoItem (children sl))"
    using ok(2) sl by (simp_all add: panel_ok_def panelNodes_def panelOrder_def panelItems_def)
  from applyInitialOrder_shape[OF sl d assms(2)]
  obtain ys where ys: "set ys = set (children sl)" "distinct (map nodeId ys)" "distinct (map selectedVideoItem ys)"
    "pg' = refreshAll (setChildren ys pg)" by blast
  have s: "selection_ok pg'" unfolding ys(4) by (rule rearranged_selection_ok[OF assms(1) sl ys(1,2,3)])
  have "serialized (refreshAll (setChildren ys pg))"
    by (rule serialized_refreshAll) (use s ok(3) sl in \<open>simp_all add: ys(4) selection_ok_def\<close>)
  then show ?thesis using s by (simp add: ys(4))
qed

lemma serverPage_starts_loop:
  assumes "server_rendered pg"
  shows "wired_upto 0 es0 (pg\<lparr> fileEntries := es0, selectedEntryMap := [], activePreviewEntry := None,
            previewListeners := True, inputListener := True \<rparr>)"
proof -
  have "panelItems pg = []" "selectedList pg \<noteq> None" using assms by (simp_all add: server_rendered_def)
  then show ?thesis
    by (simp add: wired_upto_def panel_ok_def items_linked_def panelItems_def panelOrder_def panelNodes_def
          panelLinks_def checkedPaths_def)
qed

lemma wired_upto_selection_ok:
  assumes "wired_upto (length es0) es0 pg" "catalog_ok es0" "searchInput pg \<noteq> None" "resultsWrapper pg \<noteq> None"
    and "inputListener pg" "resultsList pg = Some rl" "resultItems rl = []"
  shows "selection_ok pg"
proof -
  let ?es = "fileEntries pg"
  have J: "panel_ok pg" "items_linked pg" "selectedList pg \<noteq> None" "map path ?es = map path es0"
    "map checkbox ?es = map checkbox es0" "set (panelOrder pg) = set (checkedPaths (take (length es0) es0))"
    "\<forall>j \<in> set [0..<length es0]. checkbox (es0 ! j) \<noteq> None \<longrightarrow> changeListener (?es ! j)"
    using assms(1) unfolding wired_upto_def by blast+
  have len: "length ?es = length es0" using J(4) by (rule map_eq_imp_length_eq)
  have "\<forall>e \<in> set ?es. checkbox e \<noteq> None \<longrightarrow> changeListener e"
  proof
    fix e assume "e \<in> set ?es"
    then obtain j where j: "j < length ?es" "e = ?es ! j" by (auto simp: in_set_conv_nth)
    have "checkbox (?es ! j) = checkbox (es0 ! j)" using J(5) j(1) len by (metis nth_map)
    then show "checkbox e \<noteq> None \<longrightarrow> changeListener e" using J(7) j len by simp
  qed
  then have w: "wired pg" using J(3) assms(3,4,5,6) by (simp add: wired_def)
  have c: "catalog_ok ?es" using assms(2) J(4) by (simp add: catalog_ok_def)
  have t: "toggles_match pg" using J(4,5,6) by (simp add: toggles_match_def checkedPaths_zip)
  have m: "mirror_ok pg" using assms(6,7) by (simp add: mirror_ok_def)
  show ?thesis using w c J(1,2) t m by (simp add: selection_ok_def)
qed

text \<open>
  On a page that has the search elements and an empty selected list, with a well-formed
  catalog, the handler leaves a consistent page, whether it completes or is cut short;
  when it completes, the hidden fields are written.
\<close>

lemma DOMContentLoaded_ok:
  assumes "server_rendered pg" "catalog_ok (map buildEntry els)"
  shows "selection_ok (pageOf (DOMContentLoaded JSON_parse els pg))"
    and "\<not> threw (DOMContentLoaded JSON_parse els pg) \<Longrightarrow> serialized (pageOf (DOMContentLoaded JSON_parse els pg))"
    and "orderedInputsContainer (pageOf (DOMContentLoaded JSON_parse els pg)) = None \<longleftrightarrow> orderedInputsContainer pg = None"
proof -
  define es0 where "es0 = map buildEntry els"
  define pg1 where "pg1 = pg\<lparr> fileEntries := es0, selectedEntryMap := [], activePreviewEntry := None,
            previewListeners := True \<rparr>"
  define pg2 where "pg2 = foldl wireEntry (pg1\<lparr> inputListener := True \<rparr>) [0..<length es0]"
  define order where "order = selectedListInitialOrder JSON_parse pg1"
  obtain rl v0 w0 where sr: "playlistEditor pg" "searchInput pg = Some v0" "resultsWrapper pg = Some w0"
    "resultsList pg = Some rl" "resultItems rl = []"
    using assms(1) by (auto simp: server_rendered_def split: option.splits)
  have d: "DOMContentLoaded JSON_parse els pg =
           (case applyInitialOrder order pg2 of
              Inl e \<Rightarrow> Threw e pg2
            | Inr pg3 \<Rightarrow> Completed (if clearButton pg3 then pg3\<lparr> clearListener := True \<rparr> else pg3))"
    unfolding DOMContentLoaded_def Let_def pg2_def pg1_def es0_def order_def using sr
    by (simp cong: sum.case_cong)
  have "wired_upto 0 es0 (pg1\<lparr> inputListener := True \<rparr>)"
    unfolding pg1_def using serverPage_starts_loop[OF assms(1), of es0] by simp
  then have W: "wired_upto (length es0) es0 pg2"
    unfolding pg2_def using assms(2) by (intro wire_loop) (simp_all add: es0_def)
  have fr: "searchInput pg2 = searchInput pg" "inputListener pg2" "resultsWrapper pg2 = resultsWrapper pg"
    "resultsList pg2 = resultsList pg" "orderedInputsContainer pg2 = None \<longleftrightarrow> orderedInputsContainer pg = None"
    unfolding pg2_def using wire_loop_frame[of "pg1\<lparr> inputListener := True \<rparr>" "[0..<length es0]"]
    by (simp_all add: pg1_def)
  have ok2: "selection_ok pg2"
    by (rule wired_upto_selection_ok[OF W]) (use assms(2) sr fr in \<open>simp_all add: es0_def\<close>)
  show "selection_ok (pageOf (DOMContentLoaded JSON_parse els pg))"
  proof (cases "applyInitialOrder order pg2")
    case (Inl e)
    then show ?thesis using d ok2 by (simp add: pageOf_def)
  next
    case (Inr pg3)
    have ok3: "selection_ok pg3" using applyInitialOrder_selection_ok[OF ok2 Inr] by simp
    have m3: "mirror_ok (pg3\<lparr> clearListener := True \<rparr>)"
      by (rule mirror_ok_entries[of pg3]) (use ok3 in \<open>simp_all add: selection_ok_def\<close>)
    have "selection_ok (pg3\<lparr> clearListener := True \<rparr>)"
      by (rule selection_ok_cong[OF ok3]) (use ok3 m3 in \<open>simp_all add: selection_ok_def wired_def\<close>)
    then show ?thesis using d Inr ok3 by (simp add: pageOf_def)
  qed
  show "serialized (pageOf (DOMContentLoaded JSON_parse els pg))" if "\<not> threw (DOMContentLoaded JSON_parse els pg)"
  proof (cases "applyInitialOrder order pg2")
    case (Inl e)
    then show ?thesis using d that by (simp add: threw_def)
  next
    case (Inr pg3)
    have s3: "serialized pg3" using applyInitialOrder_selection_ok[OF ok2 Inr] by simp
    have "serialized (pg3\<lparr> clearListener := True \<rparr>) = serialized pg3"
      by (rule serialized_cong) simp_all
    then show ?thesis using d Inr s3 by (simp add: pageOf_def)
  qed
  show "orderedInputsContainer (pageOf (DOMContentLoaded JSON_parse els pg)) = None \<longleftrightarrow> orderedInputsContainer pg = None"
  proof (cases "applyInitialOrder order pg2")
    case (Inl e)
    then show ?thesis using d fr(5) by (simp add: pageOf_def)
  next
    case (Inr pg3)
    have "orderedInputsContainer pg3 = None \<longleftrightarrow> orderedInputsContainer pg2 = None"
      using applyInitialOrder_selection_ok[OF ok2 Inr] by simp
    then show ?thesis using d Inr fr(5) by (simp add: pageOf_def)
  qed
qed

section \<open>The claims about every sequence of events\<close>

lemma serverPage_rendered: "server_rendered (serverPage None)"
  by code_simp

lemma abcEntries_catalog: "catalog_ok (map buildEntry abcEntries)"
  by code_simp

lemma loadedAbc_pageOf: "pageOf (DOMContentLoaded (\<lambda>_. None) abcEntries (serverPage None)) = loadedAbc"
  by (simp add: loadedAbc_handler pageOf_def)

text \<open>
  Claim C4 (Invariant A). Take a page that the server renders with the editor, an empty
  selected list and the search elements, and a catalog whose identifiers are non-empty and
  pairwise different. After the handler has run, and after any sequence of user events
  (native checkboxes, proxy checkboxes of the search results, remove buttons, and all the
  others), the identifiers in the selected list are exactly those whose native toggle is on.
\<close>

theorem selection_equals_toggles:
  assumes "server_rendered pg" and "catalog_ok (map buildEntry els)"
  shows "set (panelOrder (run evs (pageOf (DOMContentLoaded JSON_parse els pg))))
           = set (checkedPaths (fileEntries (run evs (pageOf (DOMContentLoaded JSON_parse els pg)))))"
proof -
  have "selection_ok (run evs (pageOf (DOMContentLoaded JSON_parse els pg)))"
    by (rule run_selection_ok) (rule DOMContentLoaded_ok(1)[OF assms])
  then show ?thesis by (simp add: selection_ok_def toggles_match_def)
qed

text \<open>
  With entries a, b, c checked at load: b is switched off natively, found by the search
  and switched on through its proxy, then a is removed with its button.
\<close>

theorem selection_equals_toggles_witness:
  "server_rendered (serverPage None) \<and> catalog_ok (map buildEntry abcEntries)
   \<and> set (panelOrder (run [NativeToggle 1, SearchInput ''b'', MirrorToggle 0, RemoveClick 0]
         (pageOf (DOMContentLoaded (\<lambda>_. None) abcEntries (serverPage None)))))
       = set (checkedPaths (fileEntries (run [NativeToggle 1, SearchInput ''b'', MirrorToggle 0, RemoveClick 0]
         (pageOf (DOMContentLoaded (\<lambda>_. None) abcEntries (serverPage None))))))
   \<and> panelOrder (run [NativeToggle 1, SearchInput ''b'', MirrorToggle 0, RemoveClick 0]
         (pageOf (DOMContentLoaded (\<lambda>_. None) abcEntries (serverPage None)))) = [''c'', ''b'']"
proof -
  have "panelOrder (run [NativeToggle 1, SearchInput ''b'', MirrorToggle 0, RemoveClick 0]
         (pageOf (DOMContentLoaded (\<lambda>_. None) abcEntries (serverPage None)))) = [''c'', ''b'']"
    by code_simp
  then show ?thesis
    using serverPage_rendered abcEntries_catalog
      selection_equals_toggles[OF serverPage_rendered abcEntries_catalog,
        of "[NativeToggle 1, SearchInput ''b'', MirrorToggle 0, RemoveClick 0]" "\<lambda>_. None"]
    by simp
qed

text \<open>
  Claim C5. On such a page with the container of the hidden fields, once the handler has
  completed (it applies the initial order), the container holds after any sequence of
  events (adding, removing and moving items included) exactly one input per item of the
  selected list, in the list's order, each of type \<^verbatim>\<open>hidden\<close>, named
  \<^verbatim>\<open>ordered_videos\<close> and carrying the item's identifier. The serializer clears before it
  rebuilds: run on the reached page with any stale fields in the container, it leaves
  exactly those inputs.
\<close>

theorem hidden_fields_spell_selection:
  assumes "server_rendered pg" and "catalog_ok (map buildEntry els)"
    and "orderedInputsContainer pg = Some inputs0"
    and "DOMContentLoaded JSON_parse els pg = Completed pg0"
  shows "orderedInputsContainer (run evs pg0) =
           Some (map (\<lambda>p. \<lparr> inputType = ''hidden'', inputName = ''ordered_videos'', inputValue = p \<rparr>)
                   (panelOrder (run evs pg0)))
       \<and> orderedInputsContainer (refreshOrderedInputs ((run evs pg0)\<lparr> orderedInputsContainer := Some stale \<rparr>)) =
           Some (map (\<lambda>p. \<lparr> inputType = ''hidden'', inputName = ''ordered_videos'', inputValue = p \<rparr>)
                   (panelOrder (run evs pg0)))"
proof -
  let ?field = "\<lambda>p. \<lparr> inputType = ''hidden'', inputName = ''ordered_videos'', inputValue = p \<rparr>"
  have f: "orderedInput = ?field" by (rule ext) (simp add: orderedInput_def)
  have p: "pageOf (DOMContentLoaded JSON_parse els pg) = pg0" "\<not> threw (DOMContentLoaded JSON_parse els pg)"
    using assms(4) by (simp_all add: pageOf_def threw_def)
  have ok: "selection_ok pg0" using DOMContentLoaded_ok(1)[OF assms(1,2), of JSON_parse] p(1) by simp
  have s: "serialized pg0" using DOMContentLoaded_ok(2)[OF assms(1,2) p(2)] p(1) by simp
  have "orderedInputsContainer pg0 \<noteq> None"
    using DOMContentLoaded_ok(3)[OF assms(1,2), of JSON_parse] p(1) assms(3) by simp
  then have n: "orderedInputsContainer (run evs pg0) \<noteq> None" by (simp add: run_presence)
  have "serialized (run evs pg0)" by (rule run_serialized[OF ok s])
  then have 1: "orderedInputsContainer (run evs pg0) = Some (map orderedInput (panelOrder (run evs pg0)))"
    using n by (auto simp: serialized_def split: option.splits)
  have ok': "selection_ok (run evs pg0)" by (rule run_selection_ok[OF ok])
  then obtain sl where sl: "selectedList (run evs pg0) = Some sl"
    by (auto simp: selection_ok_def wired_def)
  have ne: "filter (\<lambda>p. p \<noteq> []) (panelOrder (run evs pg0)) = panelOrder (run evs pg0)"
    using ok' by (intro nonempty_paths) (simp_all add: selection_ok_def)
  have po: "panelOrder (run evs pg0) = map selectedVideoItem (children sl)"
    using sl by (simp add: panelOrder_def panelItems_def)
  have 2: "orderedInputsContainer (refreshOrderedInputs ((run evs pg0)\<lparr> orderedInputsContainer := Some stale \<rparr>)) =
             Some (map orderedInput (panelOrder (run evs pg0)))"
    using sl ne unfolding po by (simp add: refreshOrderedInputs_def serialize_reflag)
  show ?thesis using 1 2 unfolding f by simp
qed

text \<open>
  With entries a, b, c: after b is moved up and a is removed the fields spell b, c, and
  the serializer replaces a stale field z by them.
\<close>

theorem hidden_fields_spell_selection_witness:
  "server_rendered (serverPage None) \<and> catalog_ok (map buildEntry abcEntries)
   \<and> orderedInputsContainer (serverPage None) = Some []
   \<and> DOMContentLoaded (\<lambda>_. None) abcEntries (serverPage None) = Completed loadedAbc
   \<and> panelOrder (run [MoveUpClick 1, RemoveClick 1] loadedAbc) = [''b'', ''c'']
   \<and> orderedInputsContainer (run [MoveUpClick 1, RemoveClick 1] loadedAbc)
       = Some [\<lparr> inputType = ''hidden'', inputName = ''ordered_videos'', inputValue = ''b'' \<rparr>,
               \<lparr> inputType = ''hidden'', inputName = ''ordered_videos'', inputValue = ''c'' \<rparr>]
   \<and> orderedInputsContainer (refreshOrderedInputs ((run [MoveUpClick 1, RemoveClick 1] loadedAbc)
         \<lparr> orderedInputsContainer := Some [\<lparr> inputType = ''text'', inputName = ''stale'', inputValue = ''z'' \<rparr>] \<rparr>))
       = Some [\<lparr> inputType = ''hidden'', inputName = ''ordered_videos'', inputValue = ''b'' \<rparr>,
               \<lparr> inputType = ''hidden'', inputName = ''ordered_videos'', inputValue = ''c'' \<rparr>]"
proof -
  have c: "orderedInputsContainer (serverPage None) = Some []" by code_simp
  have o: "panelOrder (run [MoveUpClick 1, RemoveClick 1] loadedAbc) = [''b'', ''c'']" by code_simp
  show ?thesis
    using serverPage_rendered abcEntries_catalog c o loadedAbc_handler
      hidden_fields_spell_selection[OF serverPage_rendered abcEntries_catalog c loadedAbc_handler,
        of "[MoveUpClick 1, RemoveClick 1]"
           "[\<lparr> inputType = ''text'', inputName = ''stale'', inputValue = ''z'' \<rparr>]"]
    by simp
qed

text \<open>
  Claim C8. At every state such a page reaches, a change of the proxy checkbox of a search
  result whose entry has a checkbox leaves exactly the page that a click on that native
  checkbox leaves, and a click on the remove button of a selected item leaves exactly the
  page that a click on the native checkbox of its entry leaves. After either, the selected
  list and the native toggles agree.
\<close>

theorem proxies_act_as_native:
  assumes "server_rendered pg0" and "catalog_ok (map buildEntry els)"
    and "pg = run evs (pageOf (DOMContentLoaded JSON_parse els pg0))"
  shows "(resultsList pg = Some rl \<and> k < length (resultItems rl) \<and>
            checkbox (fileEntries pg ! resultEntry (resultItems rl ! k)) \<noteq> None \<longrightarrow>
          step (MirrorToggle k) pg = step (NativeToggle (resultEntry (resultItems rl ! k))) pg)
       \<and> (selectedList pg = Some sl \<and> j < length (children sl) \<longrightarrow>
          step (RemoveClick j) pg = step (NativeToggle (itemEntry (children sl ! j))) pg)
       \<and> toggles_match (step (MirrorToggle k) pg)
       \<and> toggles_match (step (RemoveClick j) pg)"
proof -
  have ok: "selection_ok pg"
    unfolding assms(3) by (rule run_selection_ok) (rule DOMContentLoaded_ok(1)[OF assms(1,2)])
  have "selection_ok (step (MirrorToggle k) pg)" "selection_ok (step (RemoveClick j) pg)"
    by (rule step_selection_ok[OF ok])+
  then have t: "toggles_match (step (MirrorToggle k) pg)" "toggles_match (step (RemoveClick j) pg)"
    by (simp_all add: selection_ok_def)
  show ?thesis
    using mirror_toggle_is_native[OF ok, of rl k] remove_click_is_native[OF ok, of sl j] t by blast
qed

text \<open>
  With entries a, b, c and the query b: the proxy of b and the remove button of b both
  do what the native checkbox of b does, and b leaves the selection.
\<close>

theorem proxies_act_as_native_witness:
  "server_rendered (serverPage None) \<and> catalog_ok (map buildEntry abcEntries)
   \<and> resultsList (run [SearchInput ''b''] loadedAbc)
       = Some \<lparr> listHidden = False,
                resultItems = [\<lparr> resultEntry = 1, mirrorChecked = True, textSpan = ''b'', resultPreview = None \<rparr>] \<rparr>
   \<and> checkbox (fileEntries (run [SearchInput ''b''] loadedAbc) ! 1) = Some True
   \<and> selectedList (run [SearchInput ''b''] loadedAbc) = Some abcList
   \<and> step (MirrorToggle 0) (run [SearchInput ''b''] loadedAbc) = step (NativeToggle 1) (run [SearchInput ''b''] loadedAbc)
   \<and> step (RemoveClick 1) (run [SearchInput ''b''] loadedAbc) = step (NativeToggle 1) (run [SearchInput ''b''] loadedAbc)
   \<and> panelOrder (step (NativeToggle 1) (run [SearchInput ''b''] loadedAbc)) = [''a'', ''c'']"
proof -
  let ?pg = "run [SearchInput ''b''] loadedAbc"
  let ?rl = "\<lparr> listHidden = False,
                resultItems = [\<lparr> resultEntry = 1, mirrorChecked = True, textSpan = ''b'', resultPreview = None \<rparr>] \<rparr>"
  have k: "resultsList ?pg = Some ?rl" "checkbox (fileEntries ?pg ! 1) = Some True"
    "selectedList ?pg = Some abcList" "panelOrder (step (NativeToggle 1) ?pg) = [''a'', ''c'']"
    "itemEntry (children abcList ! 1) = 1" "length (children abcList) = 3"
    by code_simp+
  have e: "?pg = run [SearchInput ''b''] (pageOf (DOMContentLoaded (\<lambda>_. None) abcEntries (serverPage None)))"
    by (simp add: loadedAbc_pageOf)
  note t = proxies_act_as_native[OF serverPage_rendered abcEntries_catalog e, of ?rl 0 abcList 1]
  show ?thesis
    using serverPage_rendered abcEntries_catalog k t by simp
qed

end
